theory Spec2Isabelle
  imports Main "HOL-Library.Word"
begin

unbundle bit_operations_syntax

section \<open>Data model (src/main.c)\<close>

text \<open>
  \<^verbatim>\<open>struct BoardState\<close>. The pair (\<^verbatim>\<open>nextStates\<close>, \<^verbatim>\<open>lenStates\<close>) of the source is one
  field here: \<open>None\<close> is the pair (NULL, -1) of a node whose children were never generated,
  \<open>Some cs\<close> is an array of \<open>length cs\<close> children (\<open>Some []\<close> is the pair (NULL, 0)).
  The field \<^verbatim>\<open>value\<close> is called \<open>val\<close>, the fields \<^verbatim>\<open>x\<close> and \<^verbatim>\<open>y\<close> are \<open>state_x\<close> and
  \<open>state_y\<close>. The \<^verbatim>\<open>int16_t\<close> fields are integers, truncated by \<open>int16_t\<close> wherever the
  source converts to \<^verbatim>\<open>int16_t\<close>; the coordinates (0..7) are integers.
\<close>

datatype BoardState = BoardState
  (nextStates: "BoardState list option")
  (player: "64 word")
  (opponent: "64 word")
  (val: int)
  (worstBranch: int)
  (state_x: int)
  (state_y: int)

definition lenStates :: "BoardState \<Rightarrow> int" where
  "lenStates s = (case nextStates s of None \<Rightarrow> - 1 | Some cs \<Rightarrow> int (length cs))"

definition int16_t :: "int \<Rightarrow> int" where
  "int16_t v = (v + 32768) mod 65536 - 32768"

definition INT16_MIN :: int where
  "INT16_MIN = - 32768"

definition INT16_MAX :: int where
  "INT16_MAX = 32767"

definition BOARD_SIZE :: int where
  "BOARD_SIZE = 8"

definition MOVE_CUTOFF :: nat where
  "MOVE_CUTOFF = 15000000"

definition BOARD_VALUES :: "int list" where
  "BOARD_VALUES =
    [1, -30, 1, -1, -1, 1, -30, 1,
     -30, -30, 0, 0, 0, 0, -30, -30,
     1, 0, 0, 0, 0, 0, 0, 1,
     -1, 0, 0, 0, 0, 0, 0, -1,
     -1, 0, 0, 0, 0, 0, 0, -1,
     1, 0, 0, 0, 0, 0, 0, 1,
     -30, -30, 0, 0, 0, 0, -30, -30,
     1, -30, 1, -1, -1, 1, -30, 1]"

text \<open>The eight \<^verbatim>\<open>eval_*\<close> functions of the source have the same body.\<close>

definition eval_left :: "64 word \<Rightarrow> 64 word \<Rightarrow> int \<Rightarrow> int \<Rightarrow> int \<Rightarrow> int" where
  "eval_left p o' x y changed = changed + BOARD_VALUES ! nat (y * BOARD_SIZE + x)"

definition eval_right :: "64 word \<Rightarrow> 64 word \<Rightarrow> int \<Rightarrow> int \<Rightarrow> int \<Rightarrow> int" where
  "eval_right p o' x y changed = changed + BOARD_VALUES ! nat (y * BOARD_SIZE + x)"

definition eval_down :: "64 word \<Rightarrow> 64 word \<Rightarrow> int \<Rightarrow> int \<Rightarrow> int \<Rightarrow> int" where
  "eval_down p o' x y changed = changed + BOARD_VALUES ! nat (y * BOARD_SIZE + x)"

definition eval_up :: "64 word \<Rightarrow> 64 word \<Rightarrow> int \<Rightarrow> int \<Rightarrow> int \<Rightarrow> int" where
  "eval_up p o' x y changed = changed + BOARD_VALUES ! nat (y * BOARD_SIZE + x)"

definition eval_up_left :: "64 word \<Rightarrow> 64 word \<Rightarrow> int \<Rightarrow> int \<Rightarrow> int \<Rightarrow> int" where
  "eval_up_left p o' x y changed = changed + BOARD_VALUES ! nat (y * BOARD_SIZE + x)"

definition eval_up_right :: "64 word \<Rightarrow> 64 word \<Rightarrow> int \<Rightarrow> int \<Rightarrow> int \<Rightarrow> int" where
  "eval_up_right p o' x y changed = changed + BOARD_VALUES ! nat (y * BOARD_SIZE + x)"

definition eval_down_left :: "64 word \<Rightarrow> 64 word \<Rightarrow> int \<Rightarrow> int \<Rightarrow> int \<Rightarrow> int" where
  "eval_down_left p o' x y changed = changed + BOARD_VALUES ! nat (y * BOARD_SIZE + x)"

definition eval_down_right :: "64 word \<Rightarrow> 64 word \<Rightarrow> int \<Rightarrow> int \<Rightarrow> int \<Rightarrow> int" where
  "eval_down_right p o' x y changed = changed + BOARD_VALUES ! nat (y * BOARD_SIZE + x)"

section \<open>Move generation: \<^verbatim>\<open>generate_child_moves\<close>\<close>

text \<open>\<^verbatim>\<open>w >> n & 0b1\<close>, the test of bit \<open>n\<close> (\<open>n\<close> is a C \<^verbatim>\<open>int\<close>).\<close>

definition tst :: "64 word \<Rightarrow> int \<Rightarrow> bool" where
  "tst w n = (drop_bit (nat n) w AND 1 \<noteq> 0)"

text \<open>
  The locals of one board cell: \<^verbatim>\<open>success\<close>, \<^verbatim>\<open>value\<close>, and the two bitboards of the scratch
  entry \<^verbatim>\<open>boards[move]\<close>. \<open>apply_flip\<close> is the body every direction runs when its scan reaches a
  tile of the mover: set the mask in \<^verbatim>\<open>player\<close>, clear it in \<^verbatim>\<open>opponent\<close>, add the
  direction's evaluation to \<^verbatim>\<open>value\<close>.
\<close>

type_synonym cell = "bool \<times> int \<times> 64 word \<times> 64 word"

definition apply_flip ::
  "64 word \<Rightarrow> (64 word \<Rightarrow> 64 word \<Rightarrow> int \<Rightarrow> int \<Rightarrow> int \<Rightarrow> int) \<Rightarrow> int \<Rightarrow> int \<Rightarrow> int \<Rightarrow> cell \<Rightarrow> cell" where
  "apply_flip msk ev x y changed c =
    (case c of (success, v, bp, bo) \<Rightarrow>
      (let bp' = bp OR msk; bo' = bo AND NOT msk
       in (True, int16_t (v + ev bp' bo' x y changed), bp', bo')))"

text \<open>
  The scanning loops. Each returns the loop variables at which a tile of the mover was found
  (\<open>None\<close> when the loop ends at an empty cell or at the edge of the board).
\<close>

function left_scan :: "64 word \<Rightarrow> 64 word \<Rightarrow> int \<Rightarrow> int \<Rightarrow> int \<Rightarrow> int option" where
  "left_scan opp emp index x testX =
    (if testX < BOARD_SIZE then
       (if \<not> tst opp (index + (testX - x)) then
          (if tst emp (index + (testX - x)) then None else Some testX)
        else left_scan opp emp index x (testX + 1))
     else None)"
  by pat_completeness auto
termination
  by (relation "measure (\<lambda>(opp, emp, index, x, testX). nat (BOARD_SIZE - testX))") auto

function right_scan :: "64 word \<Rightarrow> 64 word \<Rightarrow> int \<Rightarrow> int \<Rightarrow> int \<Rightarrow> int option" where
  "right_scan opp emp index x testX =
    (if testX \<ge> 0 then
       (if \<not> tst opp (index + (testX - x)) then
          (if tst emp (index + (testX - x)) then None else Some testX)
        else right_scan opp emp index x (testX - 1))
     else None)"
  by pat_completeness auto
termination
  by (relation "measure (\<lambda>(opp, emp, index, x, testX). nat (testX + 1))") auto

function up_scan :: "64 word \<Rightarrow> 64 word \<Rightarrow> int \<Rightarrow> int \<Rightarrow> int \<Rightarrow> int option" where
  "up_scan opp emp index y testY =
    (if testY < BOARD_SIZE then
       (if \<not> tst opp (index + (testY - y) * BOARD_SIZE) then
          (if tst emp (index + (testY - y) * BOARD_SIZE) then None else Some testY)
        else up_scan opp emp index y (testY + 1))
     else None)"
  by pat_completeness auto
termination
  by (relation "measure (\<lambda>(opp, emp, index, y, testY). nat (BOARD_SIZE - testY))") auto

function down_scan :: "64 word \<Rightarrow> 64 word \<Rightarrow> int \<Rightarrow> int \<Rightarrow> int \<Rightarrow> int option" where
  "down_scan opp emp index y testY =
    (if testY \<ge> 0 then
       (if \<not> tst opp (index + (testY - y) * BOARD_SIZE) then
          (if tst emp (index + (testY - y) * BOARD_SIZE) then None else Some testY)
        else down_scan opp emp index y (testY - 1))
     else None)"
  by pat_completeness auto
termination
  by (relation "measure (\<lambda>(opp, emp, index, y, testY). nat (testY + 1))") auto

function up_right_scan ::
  "64 word \<Rightarrow> 64 word \<Rightarrow> int \<Rightarrow> int \<Rightarrow> int \<Rightarrow> int \<Rightarrow> int \<Rightarrow> (int \<times> int) option" where
  "up_right_scan opp emp index x y testY testX =
    (if testY < BOARD_SIZE \<and> testX \<ge> 0 then
       (if \<not> tst opp (index + (testY - y) * BOARD_SIZE + (testX - x)) then
          (if tst emp (index + (testY - y) * BOARD_SIZE + (testX - x)) then None
           else Some (testY, testX))
        else up_right_scan opp emp index x y (testY + 1) (testX - 1))
     else None)"
  by pat_completeness auto
termination
  by (relation "measure (\<lambda>(opp, emp, index, x, y, testY, testX). nat (BOARD_SIZE - testY))") auto

function down_left_scan ::
  "64 word \<Rightarrow> 64 word \<Rightarrow> int \<Rightarrow> int \<Rightarrow> int \<Rightarrow> int \<Rightarrow> int \<Rightarrow> (int \<times> int) option" where
  "down_left_scan opp emp index x y testY testX =
    (if testY \<ge> 0 \<and> testX < BOARD_SIZE then
       (if \<not> tst opp (index + (testY - y) * BOARD_SIZE + (testX - x)) then
          (if tst emp (index + (testY - y) * BOARD_SIZE + (testX - x)) then None
           else Some (testY, testX))
        else down_left_scan opp emp index x y (testY - 1) (testX + 1))
     else None)"
  by pat_completeness auto
termination
  by (relation "measure (\<lambda>(opp, emp, index, x, y, testY, testX). nat (testY + 1))") auto

function up_left_scan ::
  "64 word \<Rightarrow> 64 word \<Rightarrow> int \<Rightarrow> int \<Rightarrow> int \<Rightarrow> int \<Rightarrow> int \<Rightarrow> (int \<times> int) option" where
  "up_left_scan opp emp index x y testY testX =
    (if testY < BOARD_SIZE \<and> testX < BOARD_SIZE then
       (if \<not> tst opp (index + (testY - y) * BOARD_SIZE + (testX - x)) then
          (if tst emp (index + (testY - y) * BOARD_SIZE + (testX - x)) then None
           else Some (testY, testX))
        else up_left_scan opp emp index x y (testY + 1) (testX + 1))
     else None)"
  by pat_completeness auto
termination
  by (relation "measure (\<lambda>(opp, emp, index, x, y, testY, testX). nat (BOARD_SIZE - testY))") auto

function down_right_scan ::
  "64 word \<Rightarrow> 64 word \<Rightarrow> int \<Rightarrow> int \<Rightarrow> int \<Rightarrow> int \<Rightarrow> int \<Rightarrow> (int \<times> int) option" where
  "down_right_scan opp emp index x y testY testX =
    (if testY \<ge> 0 \<and> testX \<ge> 0 then
       (if \<not> tst opp (index + (testY - y) * BOARD_SIZE + (testX - x)) then
          (if tst emp (index + (testY - y) * BOARD_SIZE + (testX - x)) then None
           else Some (testY, testX))
        else down_right_scan opp emp index x y (testY - 1) (testX - 1))
     else None)"
  by pat_completeness auto
termination
  by (relation "measure (\<lambda>(opp, emp, index, x, y, testY, testX). nat (testY + 1))") auto

declare left_scan.simps [simp del] right_scan.simps [simp del] up_scan.simps [simp del]
  down_scan.simps [simp del] up_right_scan.simps [simp del] down_left_scan.simps [simp del]
  up_left_scan.simps [simp del] down_right_scan.simps [simp del]


text \<open>
  The flip masks of the eight directions (\<^verbatim>\<open>const uint64_t mask = ...\<close> in each block), as
  functions of the variables they read.
\<close>

definition mask_left :: "int \<Rightarrow> int \<Rightarrow> 64 word" where
  "mask_left index toFlip = push_bit (nat index) (drop_bit (nat (BOARD_SIZE - (toFlip + 1))) 0xFF)"

definition mask_right :: "int \<Rightarrow> int \<Rightarrow> int \<Rightarrow> 64 word" where
  "mask_right index x testX =
    push_bit (nat (index - (x - testX - 1))) (drop_bit (nat (BOARD_SIZE - (x - testX))) 0xFF)"

definition mask_up :: "int \<Rightarrow> int \<Rightarrow> int \<Rightarrow> 64 word" where
  "mask_up index y testY =
    push_bit (nat index)
      (drop_bit (nat ((BOARD_SIZE - (testY - y)) * BOARD_SIZE)) 0x0101010101010101)"

definition mask_down :: "int \<Rightarrow> int \<Rightarrow> int \<Rightarrow> 64 word" where
  "mask_down index y testY =
    push_bit (nat (index - (y - testY - 1) * BOARD_SIZE))
      (drop_bit (nat ((BOARD_SIZE - (y - testY)) * BOARD_SIZE)) 0x0101010101010101)"

definition mask_up_right :: "int \<Rightarrow> int \<Rightarrow> int \<Rightarrow> 64 word" where
  "mask_up_right x y testY =
    push_bit (nat (y * BOARD_SIZE + (x - (testY - y - 1))))
      (drop_bit (nat ((BOARD_SIZE - (testY - y)) * BOARD_SIZE)) 0x0102040810204080)"

definition mask_down_left :: "int \<Rightarrow> int \<Rightarrow> int \<Rightarrow> 64 word" where
  "mask_down_left y testY testX =
    drop_bit (nat ((BOARD_SIZE - y - 1) * BOARD_SIZE + BOARD_SIZE - testX))
      (push_bit (nat ((BOARD_SIZE - (y - testY)) * BOARD_SIZE)) 0x0102040810204080)"

definition mask_up_left :: "int \<Rightarrow> int \<Rightarrow> int \<Rightarrow> 64 word" where
  "mask_up_left index y testY =
    push_bit (nat index)
      (drop_bit (nat ((BOARD_SIZE - (testY - y)) * BOARD_SIZE + (BOARD_SIZE - (testY - y))))
         0x8040201008040201)"

definition mask_down_right :: "int \<Rightarrow> int \<Rightarrow> int \<Rightarrow> 64 word" where
  "mask_down_right x y testY =
    drop_bit (nat ((BOARD_SIZE - y - 1) * BOARD_SIZE + (BOARD_SIZE - x - 1)))
      (push_bit (nat ((BOARD_SIZE - (y - testY)) * BOARD_SIZE + (BOARD_SIZE - (y - testY))))
         0x8040201008040201)"

text \<open>
  The constants computed before the loops: the locals \<^verbatim>\<open>player\<close> and \<^verbatim>\<open>opponent\<close> (the fields
  of the parent, swapped), \<^verbatim>\<open>empty\<close> and the eight adjacency masks.
\<close>

record masks =
  m_player :: "64 word"
  m_opponent :: "64 word"
  m_empty :: "64 word"
  m_right :: "64 word"
  m_left :: "64 word"
  m_up :: "64 word"
  m_down :: "64 word"
  m_upRight :: "64 word"
  m_downLeft :: "64 word"
  m_upLeft :: "64 word"
  m_downRight :: "64 word"

definition make_masks :: "64 word \<Rightarrow> 64 word \<Rightarrow> masks" where
  "make_masks p opp =
    (let emp = NOT (p OR opp)
     in \<lparr>m_player = p, m_opponent = opp, m_empty = emp,
         m_right = emp AND push_bit 1 opp,
         m_left = emp AND drop_bit 1 opp,
         m_up = emp AND drop_bit (nat BOARD_SIZE) opp,
         m_down = emp AND push_bit (nat BOARD_SIZE) opp,
         m_upRight = emp AND drop_bit (nat (BOARD_SIZE - 1)) opp,
         m_downLeft = emp AND push_bit (nat (BOARD_SIZE - 1)) opp,
         m_upLeft = emp AND drop_bit (nat (BOARD_SIZE + 1)) opp,
         m_downRight = emp AND push_bit (nat (BOARD_SIZE + 1)) opp\<rparr>)"

text \<open>
  One iteration of the inner loop: the eight direction blocks in the order of the source,
  on the locals of the cell.
\<close>

definition left_block :: "masks \<Rightarrow> int \<Rightarrow> int \<Rightarrow> int \<Rightarrow> cell \<Rightarrow> cell" where
  "left_block m index x y c =
    (if x + 2 < BOARD_SIZE \<and> tst (m_left m) index then
       (case left_scan (m_opponent m) (m_empty m) index x (x + 2) of
          None \<Rightarrow> c
        | Some testX \<Rightarrow>
            (let toFlip = testX - x
             in apply_flip (mask_left index toFlip) eval_left x y (toFlip - 1) c))
     else c)"

definition right_block :: "masks \<Rightarrow> int \<Rightarrow> int \<Rightarrow> int \<Rightarrow> cell \<Rightarrow> cell" where
  "right_block m index x y c =
    (if x \<ge> 2 \<and> tst (m_right m) index then
       (case right_scan (m_opponent m) (m_empty m) index x (x - 2) of
          None \<Rightarrow> c
        | Some testX \<Rightarrow>
            apply_flip (mask_right index x testX) eval_right x y (x - testX - 1) c)
     else c)"

definition up_block :: "masks \<Rightarrow> int \<Rightarrow> int \<Rightarrow> int \<Rightarrow> cell \<Rightarrow> cell" where
  "up_block m index x y c =
    (if y + 2 < BOARD_SIZE \<and> tst (m_up m) index then
       (case up_scan (m_opponent m) (m_empty m) index y (y + 2) of
          None \<Rightarrow> c
        | Some testY \<Rightarrow>
            apply_flip (mask_up index y testY) eval_up x y (testY - y - 1) c)
     else c)"

definition down_block :: "masks \<Rightarrow> int \<Rightarrow> int \<Rightarrow> int \<Rightarrow> cell \<Rightarrow> cell" where
  "down_block m index x y c =
    (if y \<ge> 2 \<and> tst (m_down m) index then
       (case down_scan (m_opponent m) (m_empty m) index y (y - 1) of
          None \<Rightarrow> c
        | Some testY \<Rightarrow>
            apply_flip (mask_down index y testY) eval_down x y (y - testY - 1) c)
     else c)"

definition up_right_block :: "masks \<Rightarrow> int \<Rightarrow> int \<Rightarrow> int \<Rightarrow> cell \<Rightarrow> cell" where
  "up_right_block m index x y c =
    (if y + 2 < BOARD_SIZE \<and> x \<ge> 2 \<and> tst (m_upRight m) index then
       (case up_right_scan (m_opponent m) (m_empty m) index x y (y + 2) (x - 2) of
          None \<Rightarrow> c
        | Some (testY, testX) \<Rightarrow>
            apply_flip (mask_up_right x y testY) eval_up_right x y (testY - y - 1) c)
     else c)"

definition down_left_block :: "masks \<Rightarrow> int \<Rightarrow> int \<Rightarrow> int \<Rightarrow> cell \<Rightarrow> cell" where
  "down_left_block m index x y c =
    (if y \<ge> 2 \<and> x + 2 < BOARD_SIZE \<and> tst (m_downLeft m) index then
       (case down_left_scan (m_opponent m) (m_empty m) index x y (y - 2) (x + 2) of
          None \<Rightarrow> c
        | Some (testY, testX) \<Rightarrow>
            apply_flip (mask_down_left y testY testX) eval_down_left x y (y - testY - 1) c)
     else c)"

definition up_left_block :: "masks \<Rightarrow> int \<Rightarrow> int \<Rightarrow> int \<Rightarrow> cell \<Rightarrow> cell" where
  "up_left_block m index x y c =
    (if y + 2 < BOARD_SIZE \<and> x + 2 < BOARD_SIZE \<and> tst (m_upLeft m) index then
       (case up_left_scan (m_opponent m) (m_empty m) index x y (y + 2) (x + 2) of
          None \<Rightarrow> c
        | Some (testY, testX) \<Rightarrow>
            apply_flip (mask_up_left index y testY) eval_up_left x y (testY - y - 1) c)
     else c)"

definition down_right_block :: "masks \<Rightarrow> int \<Rightarrow> int \<Rightarrow> int \<Rightarrow> cell \<Rightarrow> cell" where
  "down_right_block m index x y c =
    (if y \<ge> 2 \<and> x \<ge> 2 \<and> tst (m_downRight m) index then
       (case down_right_scan (m_opponent m) (m_empty m) index x y (y - 2) (x - 2) of
          None \<Rightarrow> c
        | Some (testY, testX) \<Rightarrow>
            apply_flip (mask_down_right x y testY) eval_down_right x y (y - testY - 1) c)
     else c)"

definition cell_blocks :: "masks \<Rightarrow> int \<Rightarrow> int \<Rightarrow> int \<Rightarrow> cell \<Rightarrow> cell" where
  "cell_blocks m index x y c =
    down_right_block m index x y
     (up_left_block m index x y
      (down_left_block m index x y
       (up_right_block m index x y
        (down_block m index x y
         (up_block m index x y
          (right_block m index x y
           (left_block m index x y c)))))))"

text \<open>
  The array \<^verbatim>\<open>boards\<close>: \<open>boards\<close> holds the entries written so far (entry \<open>move\<close>, the last
  one, is the scratch entry of the move being built), \<open>cap\<close> is the number of entries
  allocated (\<^verbatim>\<open>malloc\<close> of 16, \<^verbatim>\<open>realloc\<close> to 33). A write at an index that is not below
  \<open>cap\<close> is outside the allocation: the model stops there with \<open>OutOfBounds\<close>.
\<close>

datatype error = OutOfBounds

record gen_state =
  boards :: "BoardState list"
  move :: nat
  cap :: nat

definition init_entry :: "64 word \<Rightarrow> 64 word \<Rightarrow> BoardState" where
  "init_entry p opp = BoardState None p opp 0 0 0 0"

definition cell_step :: "masks \<Rightarrow> int \<Rightarrow> int \<Rightarrow> int \<Rightarrow> gen_state \<Rightarrow> error + gen_state" where
  "cell_step m index x y g =
    (let b = boards g ! move g
     in case cell_blocks m index x y (False, 1, player b, opponent b) of
          (success, v, bp, bo) \<Rightarrow>
            if success then
              (let bs = (boards g)[move g := BoardState (nextStates b) bp bo v (worstBranch b) x y];
                   move' = move g + 1;
                   cap' = (if move' = 16 then 33 else cap g)
               in if move' < cap'
                  then Inr \<lparr>boards = bs @ [init_entry (m_player m) (m_opponent m)],
                            move = move', cap = cap'\<rparr>
                  else Inl OutOfBounds)
            else
              Inr (g\<lparr>boards := (boards g)[move g :=
                     BoardState (nextStates b) bp bo (val b) (worstBranch b) (state_x b) (state_y b)]\<rparr>))"

function x_loop :: "masks \<Rightarrow> int \<Rightarrow> int \<Rightarrow> int \<Rightarrow> gen_state \<Rightarrow> error + (int \<times> gen_state)" where
  "x_loop m y x index g =
    (if x < BOARD_SIZE then
       (case cell_step m index x y g of
          Inl e \<Rightarrow> Inl e
        | Inr g' \<Rightarrow> x_loop m y (x + 1) (index + 1) g')
     else Inr (index, g))"
  by pat_completeness auto
termination
  by (relation "measure (\<lambda>(m, y, x, index, g). nat (BOARD_SIZE - x))") auto

function y_loop :: "masks \<Rightarrow> int \<Rightarrow> int \<Rightarrow> gen_state \<Rightarrow> error + (int \<times> gen_state)" where
  "y_loop m y index g =
    (if y < BOARD_SIZE then
       (case x_loop m y 0 index g of
          Inl e \<Rightarrow> Inl e
        | Inr (index', g') \<Rightarrow> y_loop m (y + 1) index' g')
     else Inr (index, g))"
  by pat_completeness auto
termination
  by (relation "measure (\<lambda>(m, y, index, g). nat (BOARD_SIZE - y))") auto

declare x_loop.simps [simp del] y_loop.simps [simp del]

definition generate_child_moves :: "BoardState \<Rightarrow> error + BoardState" where
  "generate_child_moves state =
    (let p = opponent state;
         opp = player state;
         g0 = \<lparr>boards = [init_entry p opp], move = 0, cap = 16\<rparr>
     in case y_loop (make_masks p opp) 0 0 g0 of
          Inl e \<Rightarrow> Inl e
        | Inr (index, g) \<Rightarrow>
            Inr (BoardState (Some (take (move g) (boards g))) (player state) (opponent state)
                   (val state) (worstBranch state) (state_x state) (state_y state)))"


section \<open>The rules of the game, and the move generator against them\<close>

text \<open>
  Cells are coordinates \<open>(cx, cy)\<close> with \<open>0 \<le> cx, cy < 8\<close>; cell \<open>(cx, cy)\<close> is bit
  \<open>cy * 8 + cx\<close> of a bitboard. \<open>ray\<close> walks from a cell in a direction \<open>(dx, dy)\<close>, starting
  at step \<open>j\<close>, over tiles of the opponent, and returns the step at which it meets a tile of
  the mover (\<open>None\<close> at an empty cell or past the edge). The eight scanning loops of the
  source are instances of it.
\<close>

definition on_board :: "int \<Rightarrow> int \<Rightarrow> bool" where
  "on_board cx cy \<longleftrightarrow> 0 \<le> cx \<and> cx < 8 \<and> 0 \<le> cy \<and> cy < 8"

definition cell_index :: "int \<Rightarrow> int \<Rightarrow> nat" where
  "cell_index cx cy = nat (cy * 8 + cx)"

definition owns :: "64 word \<Rightarrow> int \<Rightarrow> int \<Rightarrow> bool" where
  "owns w cx cy \<longleftrightarrow> on_board cx cy \<and> bit w (cell_index cx cy)"

function ray :: "64 word \<Rightarrow> 64 word \<Rightarrow> int \<Rightarrow> int \<Rightarrow> int \<Rightarrow> int \<Rightarrow> int \<Rightarrow> int option" where
  "ray opp emp cx cy dx dy j =
    (if j < 8 \<and> on_board (cx + j * dx) (cy + j * dy) then
       (if \<not> bit opp (cell_index (cx + j * dx) (cy + j * dy)) then
          (if bit emp (cell_index (cx + j * dx) (cy + j * dy)) then None else Some j)
        else ray opp emp cx cy dx dy (j + 1))
     else None)"
  by pat_completeness auto
termination
  by (relation "measure (\<lambda>(opp, emp, cx, cy, dx, dy, j). nat (8 - j))") auto

declare ray.simps [simp del]

lemma tst_bit: "tst w n = bit w (nat n)"
  by (simp add: tst_def bit_iff_odd_drop_bit and_one_eq mod_2_eq_odd)

lemma left_scan_ray:
  assumes "on_board x y" "index = y * 8 + x" "0 \<le> j"
  shows "left_scan opp emp index x (x + j) = map_option (\<lambda>j. x + j) (ray opp emp x y (1::int) (0::int) j)"
  using assms
proof (induction opp emp x y "(1::int)" "(0::int)" j rule: ray.induct)
  case (1 opp emp cx cy j)
  have ob: "on_board (cx + j * (1::int)) (cy + j * (0::int)) \<Longrightarrow> j < 8"
    using 1 by (auto simp: on_board_def)
  show ?case
    using 1 ob
    apply (subst left_scan.simps)
    apply (subst ray.simps)
    apply (auto simp: tst_bit BOARD_SIZE_def on_board_def cell_index_def algebra_simps)
    done
qed

lemma right_scan_ray:
  assumes "on_board x y" "index = y * 8 + x" "0 \<le> j"
  shows "right_scan opp emp index x (x - j) = map_option (\<lambda>j. x - j) (ray opp emp x y (- 1::int) (0::int) j)"
  using assms
proof (induction opp emp x y "(- 1::int)" "(0::int)" j rule: ray.induct)
  case (1 opp emp cx cy j)
  have ob: "on_board (cx + j * (- 1::int)) (cy + j * (0::int)) \<Longrightarrow> j < 8"
    using 1 by (auto simp: on_board_def)
  show ?case
    using 1 ob
    apply (subst right_scan.simps)
    apply (subst ray.simps)
    apply (auto simp: tst_bit BOARD_SIZE_def on_board_def cell_index_def algebra_simps)
    done
qed

lemma up_scan_ray:
  assumes "on_board x y" "index = y * 8 + x" "0 \<le> j"
  shows "up_scan opp emp index y (y + j) = map_option (\<lambda>j. y + j) (ray opp emp x y (0::int) (1::int) j)"
  using assms
proof (induction opp emp x y "(0::int)" "(1::int)" j rule: ray.induct)
  case (1 opp emp cx cy j)
  have ob: "on_board (cx + j * (0::int)) (cy + j * (1::int)) \<Longrightarrow> j < 8"
    using 1 by (auto simp: on_board_def)
  show ?case
    using 1 ob
    apply (subst up_scan.simps)
    apply (subst ray.simps)
    apply (auto simp: tst_bit BOARD_SIZE_def on_board_def cell_index_def algebra_simps)
    done
qed

lemma down_scan_ray:
  assumes "on_board x y" "index = y * 8 + x" "0 \<le> j"
  shows "down_scan opp emp index y (y - j) = map_option (\<lambda>j. y - j) (ray opp emp x y (0::int) (- 1::int) j)"
  using assms
proof (induction opp emp x y "(0::int)" "(- 1::int)" j rule: ray.induct)
  case (1 opp emp cx cy j)
  have ob: "on_board (cx + j * (0::int)) (cy + j * (- 1::int)) \<Longrightarrow> j < 8"
    using 1 by (auto simp: on_board_def)
  show ?case
    using 1 ob
    apply (subst down_scan.simps)
    apply (subst ray.simps)
    apply (auto simp: tst_bit BOARD_SIZE_def on_board_def cell_index_def algebra_simps)
    done
qed

lemma up_right_scan_ray:
  assumes "on_board x y" "index = y * 8 + x" "0 \<le> j"
  shows "up_right_scan opp emp index x y (y + j) (x - j) = map_option (\<lambda>j. (y + j, x - j)) (ray opp emp x y (- 1::int) (1::int) j)"
  using assms
proof (induction opp emp x y "(- 1::int)" "(1::int)" j rule: ray.induct)
  case (1 opp emp cx cy j)
  have ob: "on_board (cx + j * (- 1::int)) (cy + j * (1::int)) \<Longrightarrow> j < 8"
    using 1 by (auto simp: on_board_def)
  show ?case
    using 1 ob
    apply (subst up_right_scan.simps)
    apply (subst ray.simps)
    apply (auto simp: tst_bit BOARD_SIZE_def on_board_def cell_index_def algebra_simps)
    done
qed

lemma down_left_scan_ray:
  assumes "on_board x y" "index = y * 8 + x" "0 \<le> j"
  shows "down_left_scan opp emp index x y (y - j) (x + j) = map_option (\<lambda>j. (y - j, x + j)) (ray opp emp x y (1::int) (- 1::int) j)"
  using assms
proof (induction opp emp x y "(1::int)" "(- 1::int)" j rule: ray.induct)
  case (1 opp emp cx cy j)
  have ob: "on_board (cx + j * (1::int)) (cy + j * (- 1::int)) \<Longrightarrow> j < 8"
    using 1 by (auto simp: on_board_def)
  show ?case
    using 1 ob
    apply (subst down_left_scan.simps)
    apply (subst ray.simps)
    apply (auto simp: tst_bit BOARD_SIZE_def on_board_def cell_index_def algebra_simps)
    done
qed

lemma up_left_scan_ray:
  assumes "on_board x y" "index = y * 8 + x" "0 \<le> j"
  shows "up_left_scan opp emp index x y (y + j) (x + j) = map_option (\<lambda>j. (y + j, x + j)) (ray opp emp x y (1::int) (1::int) j)"
  using assms
proof (induction opp emp x y "(1::int)" "(1::int)" j rule: ray.induct)
  case (1 opp emp cx cy j)
  have ob: "on_board (cx + j * (1::int)) (cy + j * (1::int)) \<Longrightarrow> j < 8"
    using 1 by (auto simp: on_board_def)
  show ?case
    using 1 ob
    apply (subst up_left_scan.simps)
    apply (subst ray.simps)
    apply (auto simp: tst_bit BOARD_SIZE_def on_board_def cell_index_def algebra_simps)
    done
qed

lemma down_right_scan_ray:
  assumes "on_board x y" "index = y * 8 + x" "0 \<le> j"
  shows "down_right_scan opp emp index x y (y - j) (x - j) = map_option (\<lambda>j. (y - j, x - j)) (ray opp emp x y (- 1::int) (- 1::int) j)"
  using assms
proof (induction opp emp x y "(- 1::int)" "(- 1::int)" j rule: ray.induct)
  case (1 opp emp cx cy j)
  have ob: "on_board (cx + j * (- 1::int)) (cy + j * (- 1::int)) \<Longrightarrow> j < 8"
    using 1 by (auto simp: on_board_def)
  show ?case
    using 1 ob
    apply (subst down_right_scan.simps)
    apply (subst ray.simps)
    apply (auto simp: tst_bit BOARD_SIZE_def on_board_def cell_index_def algebra_simps)
    done
qed


lemma ray_Some_iff:
  assumes "emp = NOT (mover OR opp)" "mover AND opp = 0"
  shows "ray opp emp cx cy dx dy j0 = Some j \<longleftrightarrow>
    j0 \<le> j \<and> j < 8 \<and> (\<forall>i. j0 \<le> i \<and> i < j \<longrightarrow> owns opp (cx + i * dx) (cy + i * dy)) \<and>
    owns mover (cx + j * dx) (cy + j * dy)"
  (is "?L j0 \<longleftrightarrow> ?R j0")
proof -
  have disj: "\<not> (bit mover n \<and> bit opp n)" for n
  proof
    assume "bit mover n \<and> bit opp n"
    then have "bit (mover AND opp) n" by (simp add: bit_and_iff)
    then show False using assms(2) by simp
  qed
  have emp: "bit emp n \<longleftrightarrow> \<not> bit mover n \<and> \<not> bit opp n" if "n < 64" for n
    using assms(1) that by (simp add: bit_simps)
  have lt: "cell_index a b < 64" if "on_board a b" for a b
    using that by (auto simp: on_board_def cell_index_def)
  show ?thesis
    using assms
  proof (induction opp emp cx cy dx dy j0 rule: ray.induct)
    case (1 opp emp cx cy dx dy j0)
    let ?n = "cell_index (cx + j0 * dx) (cy + j0 * dy)"
    have disj: "\<not> (bit mover n \<and> bit opp n)" for n
    proof
      assume "bit mover n \<and> bit opp n"
      then have "bit (mover AND opp) n" by (simp add: bit_and_iff)
      then show False using 1(3) by simp
    qed
    have emp: "bit emp n \<longleftrightarrow> \<not> bit mover n \<and> \<not> bit opp n" if "n < 64" for n
      using 1(2) that by (simp add: bit_simps)
    let ?R = "\<lambda>j0. j0 \<le> j \<and> j < 8 \<and> (\<forall>i. j0 \<le> i \<and> i < j \<longrightarrow> owns opp (cx + i * dx) (cy + i * dy)) \<and>
      owns mover (cx + j * dx) (cy + j * dy)"
    show ?case
    proof (cases "j0 < 8 \<and> on_board (cx + j0 * dx) (cy + j0 * dy)")
      case False
      have "\<not> ?R j0"
      proof
        assume r: "?R j0"
        show False
        proof (cases "j = j0")
          case True
          then show ?thesis using r False by (auto simp: owns_def)
        next
          case ne: False
          then have "j0 \<le> j0 \<and> j0 < j" using r by auto
          then have "owns opp (cx + j0 * dx) (cy + j0 * dy)" using r by blast
          then show ?thesis using r False by (auto simp: owns_def)
        qed
      qed
      moreover have "ray opp emp cx cy dx dy j0 = None"
        using False by (subst ray.simps) auto
      ultimately show ?thesis by simp
    next
      case True
      then have n64: "?n < 64" using lt by blast
      show ?thesis
      proof (cases "bit opp ?n")
        case opp: True
        have rec: "ray opp emp cx cy dx dy j0 = ray opp emp cx cy dx dy (j0 + 1)"
          using True opp by (subst ray.simps) simp
        have ih: "ray opp emp cx cy dx dy (j0 + 1) = Some j \<longleftrightarrow> ?R (j0 + 1)"
          using "1.IH" True opp 1(2,3) by simp
        have own: "owns opp (cx + j0 * dx) (cy + j0 * dy)"
          using True opp by (simp add: owns_def)
        have "?R (j0 + 1) \<longleftrightarrow> ?R j0"
        proof
          assume r: "?R (j0 + 1)"
          have "owns opp (cx + i * dx) (cy + i * dy)" if "j0 \<le> i \<and> i < j" for i
          proof (cases "i = j0")
            case True
            then show ?thesis using own by simp
          next
            case False
            then have "j0 + 1 \<le> i \<and> i < j" using that by auto
            then show ?thesis using r by blast
          qed
          then show "?R j0" using r by auto
        next
          assume r: "?R j0"
          have "j \<noteq> j0"
          proof
            assume "j = j0"
            then have "bit mover ?n" using r by (simp add: owns_def)
            then show False using opp disj by blast
          qed
          then show "?R (j0 + 1)" using r by auto
        qed
        then show ?thesis using rec ih by simp
      next
        case nopp: False
        show ?thesis
        proof (cases "bit emp ?n")
          case e: True
          have "ray opp emp cx cy dx dy j0 = None"
            using True nopp e by (subst ray.simps) simp
          moreover have "\<not> ?R j0"
          proof
            assume r: "?R j0"
            show False
            proof (cases "j = j0")
              case True
              then have "bit mover ?n" using r by (simp add: owns_def)
              then show ?thesis using e emp n64 by blast
            next
              case False
              then have "j0 \<le> j0 \<and> j0 < j" using r by auto
              then have "owns opp (cx + j0 * dx) (cy + j0 * dy)" using r by blast
              then show ?thesis using nopp by (simp add: owns_def)
            qed
          qed
          ultimately show ?thesis by simp
        next
          case ne: False
          have res: "ray opp emp cx cy dx dy j0 = Some j0"
            using True nopp ne by (subst ray.simps) simp
          have mv: "bit mover ?n" using ne nopp emp n64 by blast
          have "?R j0 \<longleftrightarrow> j = j0"
          proof
            assume r: "?R j0"
            show "j = j0"
            proof (rule ccontr)
              assume "j \<noteq> j0"
              then have "j0 \<le> j0 \<and> j0 < j" using r by auto
              then have "owns opp (cx + j0 * dx) (cy + j0 * dy)" using r by blast
              then show False using nopp by (simp add: owns_def)
            qed
          next
            assume "j = j0"
            then show "?R j0" using True mv by (auto simp: owns_def)
          qed
          then show ?thesis using res by auto
        qed
      qed
    qed
  qed
qed


subsection \<open>The bits of the flip masks\<close>

definition ibit :: "64 word \<Rightarrow> int \<Rightarrow> bool" where
  "ibit w i \<longleftrightarrow> 0 \<le> i \<and> bit w (nat i)"

lemma bit_ibit: "bit w n \<longleftrightarrow> ibit w (int n)"
  by (simp add: ibit_def)

lemma ibit_push_bit:
  "0 \<le> a \<Longrightarrow> ibit (push_bit (nat a) w) i \<longleftrightarrow> a \<le> i \<and> i < 64 \<and> ibit w (i - a)"
  by (auto simp: ibit_def bit_push_bit_iff possible_bit_word nat_diff_distrib nat_le_eq_zle)

lemma ibit_drop_bit:
  "0 \<le> a \<Longrightarrow> ibit (drop_bit (nat a) w) i \<longleftrightarrow> 0 \<le> i \<and> ibit w (a + i)"
  by (auto simp: ibit_def bit_drop_bit_eq nat_add_distrib)

lemma ibit_FF: "ibit 0xFF i \<longleftrightarrow> 0 \<le> i \<and> i < 8"
proof -
  have e: "(0xFF :: 64 word) = mask 8" by (simp add: mask_eq_exp_minus_1)
  show ?thesis
    unfolding ibit_def
    apply (subst e)
    apply (simp only: bit_mask_iff)
    apply auto
    done
qed

lemma ibit_col: "ibit 0x0101010101010101 i \<longleftrightarrow> 0 \<le> i \<and> i < 64 \<and> i mod 8 = 0"
proof -
  have e: "(0x0101010101010101 :: 64 word) =
    push_bit 0 1 OR push_bit 8 1 OR push_bit 16 1 OR push_bit 24 1 OR
    push_bit 32 1 OR push_bit 40 1 OR push_bit 48 1 OR push_bit 56 1"
    by simp
  have "bit (0x0101010101010101 :: 64 word) n \<longleftrightarrow> n \<in> {0, 8, 16, 24, 32, 40, 48, 56}" for n
    apply (subst e)
    apply (simp only: bit_or_iff bit_push_bit_iff bit_1_iff)
    apply (simp add: possible_bit_word)
    apply presburger
    done
  then have "ibit 0x0101010101010101 i \<longleftrightarrow> 0 \<le> i \<and> nat i \<in> {0, 8, 16, 24, 32, 40, 48, 56}"
    by (simp only: ibit_def)
  also have "\<dots> \<longleftrightarrow> 0 \<le> i \<and> i \<in> {0, 8, 16, 24, 32, 40, 48, 56}"
    by auto
  also have "\<dots> \<longleftrightarrow> 0 \<le> i \<and> i < 64 \<and> i mod 8 = 0"
    by (simp only: insert_iff empty_iff) presburger
  finally show ?thesis .
qed

lemma ibit_anti: "ibit 0x0102040810204080 i \<longleftrightarrow> 7 \<le> i \<and> i \<le> 56 \<and> i mod 7 = 0"
proof -
  have e: "(0x0102040810204080 :: 64 word) =
    push_bit 7 1 OR push_bit 14 1 OR push_bit 21 1 OR push_bit 28 1 OR
    push_bit 35 1 OR push_bit 42 1 OR push_bit 49 1 OR push_bit 56 1"
    by simp
  have "bit (0x0102040810204080 :: 64 word) n \<longleftrightarrow> n \<in> {7, 14, 21, 28, 35, 42, 49, 56}" for n
    apply (subst e)
    apply (simp only: bit_or_iff bit_push_bit_iff bit_1_iff)
    apply (simp add: possible_bit_word)
    apply presburger
    done
  then have "ibit 0x0102040810204080 i \<longleftrightarrow> 0 \<le> i \<and> nat i \<in> {7, 14, 21, 28, 35, 42, 49, 56}"
    by (simp only: ibit_def)
  also have "\<dots> \<longleftrightarrow> 0 \<le> i \<and> i \<in> {7, 14, 21, 28, 35, 42, 49, 56}"
    by auto
  also have "\<dots> \<longleftrightarrow> 7 \<le> i \<and> i \<le> 56 \<and> i mod 7 = 0"
    by (simp only: insert_iff empty_iff) presburger
  finally show ?thesis .
qed

lemma ibit_diag: "ibit 0x8040201008040201 i \<longleftrightarrow> 0 \<le> i \<and> i < 64 \<and> i mod 9 = 0"
proof -
  have e: "(0x8040201008040201 :: 64 word) =
    push_bit 0 1 OR push_bit 9 1 OR push_bit 18 1 OR push_bit 27 1 OR
    push_bit 36 1 OR push_bit 45 1 OR push_bit 54 1 OR push_bit 63 1"
    by simp
  have "bit (0x8040201008040201 :: 64 word) n \<longleftrightarrow> n \<in> {0, 9, 18, 27, 36, 45, 54, 63}" for n
    apply (subst e)
    apply (simp only: bit_or_iff bit_push_bit_iff bit_1_iff)
    apply (simp add: possible_bit_word)
    apply presburger
    done
  then have "ibit 0x8040201008040201 i \<longleftrightarrow> 0 \<le> i \<and> nat i \<in> {0, 9, 18, 27, 36, 45, 54, 63}"
    by (simp only: ibit_def)
  also have "\<dots> \<longleftrightarrow> 0 \<le> i \<and> i \<in> {0, 9, 18, 27, 36, 45, 54, 63}"
    by auto
  also have "\<dots> \<longleftrightarrow> 0 \<le> i \<and> i < 64 \<and> i mod 9 = 0"
    by (simp only: insert_iff empty_iff) presburger
  finally show ?thesis .
qed

lemmas ibit_simps = ibit_push_bit ibit_drop_bit ibit_FF ibit_col ibit_anti ibit_diag

lemma pd_FF:
  assumes "0 \<le> s" "0 \<le> a"
  shows "ibit (push_bit (nat s) (drop_bit (nat a) 0xFF)) N \<longleftrightarrow>
    s \<le> N \<and> N < 64 \<and> a + (N - s) < 8"
  using assms by (auto simp: ibit_simps)

lemma pd_col:
  assumes "0 \<le> s" "0 \<le> a"
  shows "ibit (push_bit (nat s) (drop_bit (nat a) 0x0101010101010101)) N \<longleftrightarrow>
    s \<le> N \<and> N < 64 \<and> a + (N - s) < 64 \<and> (a + (N - s)) mod 8 = 0"
  using assms by (auto simp: ibit_simps)

lemma pd_anti:
  assumes "0 \<le> s" "0 \<le> a"
  shows "ibit (push_bit (nat s) (drop_bit (nat a) 0x0102040810204080)) N \<longleftrightarrow>
    s \<le> N \<and> N < 64 \<and> 7 \<le> a + (N - s) \<and> a + (N - s) \<le> 56 \<and> (a + (N - s)) mod 7 = 0"
  using assms by (auto simp: ibit_simps)

lemma pd_diag:
  assumes "0 \<le> s" "0 \<le> a"
  shows "ibit (push_bit (nat s) (drop_bit (nat a) 0x8040201008040201)) N \<longleftrightarrow>
    s \<le> N \<and> N < 64 \<and> a + (N - s) < 64 \<and> (a + (N - s)) mod 9 = 0"
  using assms by (auto simp: ibit_simps)

lemma dp_anti:
  assumes "0 \<le> a" "0 \<le> b"
  shows "ibit (drop_bit (nat a) (push_bit (nat b) 0x0102040810204080)) N \<longleftrightarrow>
    0 \<le> N \<and> b \<le> a + N \<and> a + N < 64 \<and> 7 \<le> a + N - b \<and> a + N - b \<le> 56 \<and>
    (a + N - b) mod 7 = 0"
  using assms by (auto simp: ibit_simps)

lemma dp_diag:
  assumes "0 \<le> a" "0 \<le> b"
  shows "ibit (drop_bit (nat a) (push_bit (nat b) 0x8040201008040201)) N \<longleftrightarrow>
    0 \<le> N \<and> b \<le> a + N \<and> a + N < 64 \<and> (a + N - b) mod 9 = 0"
  using assms by (auto simp: ibit_simps)

lemma mod_shift_plus: "(k * m + d) mod k = 0 \<longleftrightarrow> (\<exists>i. d = k * i)" for k :: int
  by (auto simp: mod_eq_0_iff_dvd dvd_def)

lemma mod_shift_minus: "(k * m - d) mod k = 0 \<longleftrightarrow> (\<exists>i. d = k * i)" for k :: int
proof -
  have "(k * m - d) mod k = 0 \<longleftrightarrow> k dvd (k * m - d)" by (simp add: mod_eq_0_iff_dvd)
  also have "\<dots> \<longleftrightarrow> k dvd d" by (simp add: dvd_diff_right_iff)
  also have "\<dots> \<longleftrightarrow> (\<exists>i. d = k * i)" by (auto simp: dvd_def)
  finally show ?thesis .
qed

lemma ibit_mask_left:
  assumes "on_board x y" "index = y * 8 + x" "1 \<le> j" "x + j < 8"
  shows "ibit (mask_left index j) N \<longleftrightarrow> (\<exists>i. 0 \<le> i \<and> i < j + 1 \<and> N = index + i)"
proof -
  have b: "0 \<le> x" "x < 8" "0 \<le> y" "y < 8"
    using assms(1) by (auto simp: on_board_def)
  have nn: "0 \<le> index" "0 \<le> 7 - j"
    using assms b by auto
  have eqm: "mask_left index j = push_bit (nat index) (drop_bit (nat (7 - j)) 0xFF)"
    using assms(2) by (simp add: mask_left_def BOARD_SIZE_def algebra_simps)
  have "ibit (mask_left index j) N \<longleftrightarrow> index \<le> N \<and> N < 64 \<and> 7 - j + (N - index) < 8"
    unfolding eqm by (rule pd_FF[OF nn])
  also have "\<dots> \<longleftrightarrow> (\<exists>i. 0 \<le> i \<and> i < j + 1 \<and> N = index + i)"
  proof
    assume "index \<le> N \<and> N < 64 \<and> 7 - j + (N - index) < 8"
    then have "0 \<le> N - index \<and> N - index < j + 1 \<and> N = index + (N - index)"
      using assms(2-4) b by auto
    then show "(\<exists>i. 0 \<le> i \<and> i < j + 1 \<and> N = index + i)" by blast
  next
    assume "(\<exists>i. 0 \<le> i \<and> i < j + 1 \<and> N = index + i)"
    then obtain i where "0 \<le> i" "i < j + 1" "N = index + i" by blast
    then show "index \<le> N \<and> N < 64 \<and> 7 - j + (N - index) < 8"
      using assms(2-4) b by auto
  qed
  finally show ?thesis .
qed

lemma ibit_mask_right:
  assumes "on_board x y" "index = y * 8 + x" "1 \<le> j" "0 \<le> x - j"
  shows "ibit (mask_right index x (x - j)) N \<longleftrightarrow> (\<exists>i. 0 \<le> i \<and> i < j \<and> N = index - i)"
proof -
  have b: "0 \<le> x" "x < 8" "0 \<le> y" "y < 8"
    using assms(1) by (auto simp: on_board_def)
  have nn: "0 \<le> index - (j - 1)" "0 \<le> 8 - j"
    using assms b by auto
  have eqm: "mask_right index x (x - j) = push_bit (nat (index - (j - 1))) (drop_bit (nat (8 - j)) 0xFF)"
    using assms(2) by (simp add: mask_right_def BOARD_SIZE_def algebra_simps)
  have "ibit (mask_right index x (x - j)) N \<longleftrightarrow> index - (j - 1) \<le> N \<and> N < 64 \<and> 8 - j + (N - (index - (j - 1))) < 8"
    unfolding eqm by (rule pd_FF[OF nn])
  also have "\<dots> \<longleftrightarrow> (\<exists>i. 0 \<le> i \<and> i < j \<and> N = index - i)"
  proof
    assume "index - (j - 1) \<le> N \<and> N < 64 \<and> 8 - j + (N - (index - (j - 1))) < 8"
    then have "0 \<le> index - N \<and> index - N < j \<and> N = index - (index - N)"
      using assms(2-4) b by auto
    then show "(\<exists>i. 0 \<le> i \<and> i < j \<and> N = index - i)" by blast
  next
    assume "(\<exists>i. 0 \<le> i \<and> i < j \<and> N = index - i)"
    then obtain i where "0 \<le> i" "i < j" "N = index - i" by blast
    then show "index - (j - 1) \<le> N \<and> N < 64 \<and> 8 - j + (N - (index - (j - 1))) < 8"
      using assms(2-4) b by auto
  qed
  finally show ?thesis .
qed

lemma ibit_mask_up:
  assumes "on_board x y" "index = y * 8 + x" "1 \<le> j" "y + j < 8"
  shows "ibit (mask_up index y (y + j)) N \<longleftrightarrow> (\<exists>i. 0 \<le> i \<and> i < j \<and> N = index + 8 * i)"
proof -
  have b: "0 \<le> x" "x < 8" "0 \<le> y" "y < 8"
    using assms(1) by (auto simp: on_board_def)
  have nn: "0 \<le> index" "0 \<le> 8 * (8 - j)"
    using assms b by auto
  have eqm: "mask_up index y (y + j) = push_bit (nat index) (drop_bit (nat (8 * (8 - j))) 0x0101010101010101)"
    using assms(2) by (simp add: mask_up_def BOARD_SIZE_def algebra_simps)
  have "ibit (mask_up index y (y + j)) N \<longleftrightarrow> index \<le> N \<and> N < 64 \<and> 8 * (8 - j) + (N - index) < 64 \<and> (8 * (8 - j) + (N - index)) mod 8 = 0"
    unfolding eqm by (rule pd_col[OF nn])
  also have "\<dots> \<longleftrightarrow> (\<exists>i. 0 \<le> i \<and> i < j \<and> N = index + 8 * i)"
  proof
    assume L: "index \<le> N \<and> N < 64 \<and> 8 * (8 - j) + (N - index) < 64 \<and> (8 * (8 - j) + (N - index)) mod 8 = 0"
    from L have lin: "index \<le> N \<and> N < 64 \<and> 8 * (8 - j) + (N - index) < 64" by blast
    from L have "(8 * (8 - j) + (N - index)) mod 8 = 0" by blast
    then obtain i where i: "N - index = 8 * i"
      unfolding mod_shift_plus by blast
    have "0 \<le> i \<and> i < j \<and> N = index + 8 * i"
      using lin i assms(2-4) b by auto
    then show "(\<exists>i. 0 \<le> i \<and> i < j \<and> N = index + 8 * i)" by blast
  next
    assume "(\<exists>i. 0 \<le> i \<and> i < j \<and> N = index + 8 * i)"
    then obtain i where i: "0 \<le> i" "i < j" "N = index + 8 * i" by blast
    have "N - index = 8 * i" using i by simp
    then have "(8 * (8 - j) + (N - index)) mod 8 = 0"
      unfolding mod_shift_plus by blast
    then have m: "(8 * (8 - j) + (N - index)) mod 8 = 0" .
    have lin: "index \<le> N \<and> N < 64 \<and> 8 * (8 - j) + (N - index) < 64"
      using i assms(2-4) b by auto
    show "index \<le> N \<and> N < 64 \<and> 8 * (8 - j) + (N - index) < 64 \<and> (8 * (8 - j) + (N - index)) mod 8 = 0"
      using m lin by blast
  qed
  finally show ?thesis .
qed

lemma ibit_mask_down:
  assumes "on_board x y" "index = y * 8 + x" "1 \<le> j" "0 \<le> y - j"
  shows "ibit (mask_down index y (y - j)) N \<longleftrightarrow> (\<exists>i. 0 \<le> i \<and> i < j \<and> N = index - 8 * i)"
proof -
  have b: "0 \<le> x" "x < 8" "0 \<le> y" "y < 8"
    using assms(1) by (auto simp: on_board_def)
  have nn: "0 \<le> index - 8 * (j - 1)" "0 \<le> 8 * (8 - j)"
    using assms b by auto
  have eqm: "mask_down index y (y - j) = push_bit (nat (index - 8 * (j - 1))) (drop_bit (nat (8 * (8 - j))) 0x0101010101010101)"
    using assms(2) by (simp add: mask_down_def BOARD_SIZE_def algebra_simps)
  have "ibit (mask_down index y (y - j)) N \<longleftrightarrow> index - 8 * (j - 1) \<le> N \<and> N < 64 \<and> 8 * (8 - j) + (N - (index - 8 * (j - 1))) < 64 \<and> (8 * (8 - j) + (N - (index - 8 * (j - 1)))) mod 8 = 0"
    unfolding eqm by (rule pd_col[OF nn])
  also have "\<dots> \<longleftrightarrow> (\<exists>i. 0 \<le> i \<and> i < j \<and> N = index - 8 * i)"
  proof
    assume L: "index - 8 * (j - 1) \<le> N \<and> N < 64 \<and> 8 * (8 - j) + (N - (index - 8 * (j - 1))) < 64 \<and> (8 * (8 - j) + (N - (index - 8 * (j - 1)))) mod 8 = 0"
    have E: "8 * (8 - j) + (N - (index - 8 * (j - 1))) = 8 * (7) - (index - N)" by simp
    from L have lin: "index - 8 * (j - 1) \<le> N \<and> N < 64 \<and> 8 * (8 - j) + (N - (index - 8 * (j - 1))) < 64" by blast
    from L have "(8 * (7) - (index - N)) mod 8 = 0" unfolding E by blast
    then obtain i where i: "index - N = 8 * i"
      unfolding mod_shift_minus by blast
    have "0 \<le> i \<and> i < j \<and> N = index - 8 * i"
      using lin i assms(2-4) b by auto
    then show "(\<exists>i. 0 \<le> i \<and> i < j \<and> N = index - 8 * i)" by blast
  next
    assume "(\<exists>i. 0 \<le> i \<and> i < j \<and> N = index - 8 * i)"
    then obtain i where i: "0 \<le> i" "i < j" "N = index - 8 * i" by blast
    have E: "8 * (8 - j) + (N - (index - 8 * (j - 1))) = 8 * (7) - (index - N)" by simp
    have "index - N = 8 * i" using i by simp
    then have "(8 * (7) - (index - N)) mod 8 = 0"
      unfolding mod_shift_minus by blast
    then have m: "(8 * (8 - j) + (N - (index - 8 * (j - 1)))) mod 8 = 0" unfolding E .
    have lin: "index - 8 * (j - 1) \<le> N \<and> N < 64 \<and> 8 * (8 - j) + (N - (index - 8 * (j - 1))) < 64"
      using i assms(2-4) b by auto
    show "index - 8 * (j - 1) \<le> N \<and> N < 64 \<and> 8 * (8 - j) + (N - (index - 8 * (j - 1))) < 64 \<and> (8 * (8 - j) + (N - (index - 8 * (j - 1)))) mod 8 = 0"
      using m lin by blast
  qed
  finally show ?thesis .
qed

lemma ibit_mask_up_right:
  assumes "on_board x y" "index = y * 8 + x" "1 \<le> j" "y + j < 8 \<and> 0 \<le> x - j"
  shows "ibit (mask_up_right x y (y + j)) N \<longleftrightarrow> (\<exists>i. 0 \<le> i \<and> i < j \<and> N = index + 7 * i)"
proof -
  have b: "0 \<le> x" "x < 8" "0 \<le> y" "y < 8"
    using assms(1) by (auto simp: on_board_def)
  have nn: "0 \<le> index - (j - 1)" "0 \<le> 8 * (8 - j)"
    using assms b by auto
  have eqm: "mask_up_right x y (y + j) = push_bit (nat (index - (j - 1))) (drop_bit (nat (8 * (8 - j))) 0x0102040810204080)"
    using assms(2) by (simp add: mask_up_right_def BOARD_SIZE_def algebra_simps)
  have "ibit (mask_up_right x y (y + j)) N \<longleftrightarrow> index - (j - 1) \<le> N \<and> N < 64 \<and> 7 \<le> 8 * (8 - j) + (N - (index - (j - 1))) \<and> 8 * (8 - j) + (N - (index - (j - 1))) \<le> 56 \<and> (8 * (8 - j) + (N - (index - (j - 1)))) mod 7 = 0"
    unfolding eqm by (rule pd_anti[OF nn])
  also have "\<dots> \<longleftrightarrow> (\<exists>i. 0 \<le> i \<and> i < j \<and> N = index + 7 * i)"
  proof
    assume L: "index - (j - 1) \<le> N \<and> N < 64 \<and> 7 \<le> 8 * (8 - j) + (N - (index - (j - 1))) \<and> 8 * (8 - j) + (N - (index - (j - 1))) \<le> 56 \<and> (8 * (8 - j) + (N - (index - (j - 1)))) mod 7 = 0"
    have E: "8 * (8 - j) + (N - (index - (j - 1))) = 7 * (9 - j) + (N - index)" by simp
    from L have lin: "index - (j - 1) \<le> N \<and> N < 64 \<and> 7 \<le> 8 * (8 - j) + (N - (index - (j - 1))) \<and> 8 * (8 - j) + (N - (index - (j - 1))) \<le> 56" by blast
    from L have "(7 * (9 - j) + (N - index)) mod 7 = 0" unfolding E by blast
    then obtain i where i: "N - index = 7 * i"
      unfolding mod_shift_plus by blast
    have "0 \<le> i \<and> i < j \<and> N = index + 7 * i"
      using lin i assms(2-4) b by auto
    then show "(\<exists>i. 0 \<le> i \<and> i < j \<and> N = index + 7 * i)" by blast
  next
    assume "(\<exists>i. 0 \<le> i \<and> i < j \<and> N = index + 7 * i)"
    then obtain i where i: "0 \<le> i" "i < j" "N = index + 7 * i" by blast
    have E: "8 * (8 - j) + (N - (index - (j - 1))) = 7 * (9 - j) + (N - index)" by simp
    have "N - index = 7 * i" using i by simp
    then have "(7 * (9 - j) + (N - index)) mod 7 = 0"
      unfolding mod_shift_plus by blast
    then have m: "(8 * (8 - j) + (N - (index - (j - 1)))) mod 7 = 0" unfolding E .
    have lin: "index - (j - 1) \<le> N \<and> N < 64 \<and> 7 \<le> 8 * (8 - j) + (N - (index - (j - 1))) \<and> 8 * (8 - j) + (N - (index - (j - 1))) \<le> 56"
      using i assms(2-4) b by auto
    show "index - (j - 1) \<le> N \<and> N < 64 \<and> 7 \<le> 8 * (8 - j) + (N - (index - (j - 1))) \<and> 8 * (8 - j) + (N - (index - (j - 1))) \<le> 56 \<and> (8 * (8 - j) + (N - (index - (j - 1)))) mod 7 = 0"
      using m lin by blast
  qed
  finally show ?thesis .
qed

lemma ibit_mask_down_left:
  assumes "on_board x y" "index = y * 8 + x" "1 \<le> j" "0 \<le> y - j \<and> x + j < 8"
  shows "ibit (mask_down_left y (y - j) (x + j)) N \<longleftrightarrow> (\<exists>i. 0 \<le> i \<and> i < j \<and> N = index - 7 * i)"
proof -
  have b: "0 \<le> x" "x < 8" "0 \<le> y" "y < 8"
    using assms(1) by (auto simp: on_board_def)
  have nn: "0 \<le> 64 - index - j" "0 \<le> 8 * (8 - j)"
    using assms b by auto
  have eqm: "mask_down_left y (y - j) (x + j) = drop_bit (nat (64 - index - j)) (push_bit (nat (8 * (8 - j))) 0x0102040810204080)"
    using assms(2) by (simp add: mask_down_left_def BOARD_SIZE_def algebra_simps)
  have "ibit (mask_down_left y (y - j) (x + j)) N \<longleftrightarrow> 0 \<le> N \<and> 8 * (8 - j) \<le> 64 - index - j + N \<and> 64 - index - j + N < 64 \<and> 7 \<le> 64 - index - j + N - 8 * (8 - j) \<and> 64 - index - j + N - 8 * (8 - j) \<le> 56 \<and> (64 - index - j + N - 8 * (8 - j)) mod 7 = 0"
    unfolding eqm by (rule dp_anti[OF nn])
  also have "\<dots> \<longleftrightarrow> (\<exists>i. 0 \<le> i \<and> i < j \<and> N = index - 7 * i)"
  proof
    assume L: "0 \<le> N \<and> 8 * (8 - j) \<le> 64 - index - j + N \<and> 64 - index - j + N < 64 \<and> 7 \<le> 64 - index - j + N - 8 * (8 - j) \<and> 64 - index - j + N - 8 * (8 - j) \<le> 56 \<and> (64 - index - j + N - 8 * (8 - j)) mod 7 = 0"
    have E: "64 - index - j + N - 8 * (8 - j) = 7 * (j) - (index - N)" by simp
    from L have lin: "0 \<le> N \<and> 8 * (8 - j) \<le> 64 - index - j + N \<and> 64 - index - j + N < 64 \<and> 7 \<le> 64 - index - j + N - 8 * (8 - j) \<and> 64 - index - j + N - 8 * (8 - j) \<le> 56" by blast
    from L have "(7 * (j) - (index - N)) mod 7 = 0" unfolding E by blast
    then obtain i where i: "index - N = 7 * i"
      unfolding mod_shift_minus by blast
    have "0 \<le> i \<and> i < j \<and> N = index - 7 * i"
      using lin i assms(2-4) b by auto
    then show "(\<exists>i. 0 \<le> i \<and> i < j \<and> N = index - 7 * i)" by blast
  next
    assume "(\<exists>i. 0 \<le> i \<and> i < j \<and> N = index - 7 * i)"
    then obtain i where i: "0 \<le> i" "i < j" "N = index - 7 * i" by blast
    have E: "64 - index - j + N - 8 * (8 - j) = 7 * (j) - (index - N)" by simp
    have "index - N = 7 * i" using i by simp
    then have "(7 * (j) - (index - N)) mod 7 = 0"
      unfolding mod_shift_minus by blast
    then have m: "(64 - index - j + N - 8 * (8 - j)) mod 7 = 0" unfolding E .
    have lin: "0 \<le> N \<and> 8 * (8 - j) \<le> 64 - index - j + N \<and> 64 - index - j + N < 64 \<and> 7 \<le> 64 - index - j + N - 8 * (8 - j) \<and> 64 - index - j + N - 8 * (8 - j) \<le> 56"
      using i assms(2-4) b by auto
    show "0 \<le> N \<and> 8 * (8 - j) \<le> 64 - index - j + N \<and> 64 - index - j + N < 64 \<and> 7 \<le> 64 - index - j + N - 8 * (8 - j) \<and> 64 - index - j + N - 8 * (8 - j) \<le> 56 \<and> (64 - index - j + N - 8 * (8 - j)) mod 7 = 0"
      using m lin by blast
  qed
  finally show ?thesis .
qed

lemma ibit_mask_up_left:
  assumes "on_board x y" "index = y * 8 + x" "1 \<le> j" "y + j < 8 \<and> x + j < 8"
  shows "ibit (mask_up_left index y (y + j)) N \<longleftrightarrow> (\<exists>i. 0 \<le> i \<and> i < j \<and> N = index + 9 * i)"
proof -
  have b: "0 \<le> x" "x < 8" "0 \<le> y" "y < 8"
    using assms(1) by (auto simp: on_board_def)
  have nn: "0 \<le> index" "0 \<le> 9 * (8 - j)"
    using assms b by auto
  have eqm: "mask_up_left index y (y + j) = push_bit (nat index) (drop_bit (nat (9 * (8 - j))) 0x8040201008040201)"
    using assms(2) by (simp add: mask_up_left_def BOARD_SIZE_def algebra_simps)
  have "ibit (mask_up_left index y (y + j)) N \<longleftrightarrow> index \<le> N \<and> N < 64 \<and> 9 * (8 - j) + (N - index) < 64 \<and> (9 * (8 - j) + (N - index)) mod 9 = 0"
    unfolding eqm by (rule pd_diag[OF nn])
  also have "\<dots> \<longleftrightarrow> (\<exists>i. 0 \<le> i \<and> i < j \<and> N = index + 9 * i)"
  proof
    assume L: "index \<le> N \<and> N < 64 \<and> 9 * (8 - j) + (N - index) < 64 \<and> (9 * (8 - j) + (N - index)) mod 9 = 0"
    from L have lin: "index \<le> N \<and> N < 64 \<and> 9 * (8 - j) + (N - index) < 64" by blast
    from L have "(9 * (8 - j) + (N - index)) mod 9 = 0" by blast
    then obtain i where i: "N - index = 9 * i"
      unfolding mod_shift_plus by blast
    have "0 \<le> i \<and> i < j \<and> N = index + 9 * i"
      using lin i assms(2-4) b by auto
    then show "(\<exists>i. 0 \<le> i \<and> i < j \<and> N = index + 9 * i)" by blast
  next
    assume "(\<exists>i. 0 \<le> i \<and> i < j \<and> N = index + 9 * i)"
    then obtain i where i: "0 \<le> i" "i < j" "N = index + 9 * i" by blast
    have "N - index = 9 * i" using i by simp
    then have "(9 * (8 - j) + (N - index)) mod 9 = 0"
      unfolding mod_shift_plus by blast
    then have m: "(9 * (8 - j) + (N - index)) mod 9 = 0" .
    have lin: "index \<le> N \<and> N < 64 \<and> 9 * (8 - j) + (N - index) < 64"
      using i assms(2-4) b by auto
    show "index \<le> N \<and> N < 64 \<and> 9 * (8 - j) + (N - index) < 64 \<and> (9 * (8 - j) + (N - index)) mod 9 = 0"
      using m lin by blast
  qed
  finally show ?thesis .
qed

lemma ibit_mask_down_right:
  assumes "on_board x y" "index = y * 8 + x" "1 \<le> j" "0 \<le> y - j \<and> 0 \<le> x - j"
  shows "ibit (mask_down_right x y (y - j)) N \<longleftrightarrow> (\<exists>i. 0 \<le> i \<and> i < j \<and> N = index - 9 * i)"
proof -
  have b: "0 \<le> x" "x < 8" "0 \<le> y" "y < 8"
    using assms(1) by (auto simp: on_board_def)
  have nn: "0 \<le> 63 - index" "0 \<le> 9 * (8 - j)"
    using assms b by auto
  have eqm: "mask_down_right x y (y - j) = drop_bit (nat (63 - index)) (push_bit (nat (9 * (8 - j))) 0x8040201008040201)"
    using assms(2) by (simp add: mask_down_right_def BOARD_SIZE_def algebra_simps)
  have "ibit (mask_down_right x y (y - j)) N \<longleftrightarrow> 0 \<le> N \<and> 9 * (8 - j) \<le> 63 - index + N \<and> 63 - index + N < 64 \<and> (63 - index + N - 9 * (8 - j)) mod 9 = 0"
    unfolding eqm by (rule dp_diag[OF nn])
  also have "\<dots> \<longleftrightarrow> (\<exists>i. 0 \<le> i \<and> i < j \<and> N = index - 9 * i)"
  proof
    assume L: "0 \<le> N \<and> 9 * (8 - j) \<le> 63 - index + N \<and> 63 - index + N < 64 \<and> (63 - index + N - 9 * (8 - j)) mod 9 = 0"
    have E: "63 - index + N - 9 * (8 - j) = 9 * (j - 1) - (index - N)" by simp
    from L have lin: "0 \<le> N \<and> 9 * (8 - j) \<le> 63 - index + N \<and> 63 - index + N < 64" by blast
    from L have "(9 * (j - 1) - (index - N)) mod 9 = 0" unfolding E by blast
    then obtain i where i: "index - N = 9 * i"
      unfolding mod_shift_minus by blast
    have "0 \<le> i \<and> i < j \<and> N = index - 9 * i"
      using lin i assms(2-4) b by auto
    then show "(\<exists>i. 0 \<le> i \<and> i < j \<and> N = index - 9 * i)" by blast
  next
    assume "(\<exists>i. 0 \<le> i \<and> i < j \<and> N = index - 9 * i)"
    then obtain i where i: "0 \<le> i" "i < j" "N = index - 9 * i" by blast
    have E: "63 - index + N - 9 * (8 - j) = 9 * (j - 1) - (index - N)" by simp
    have "index - N = 9 * i" using i by simp
    then have "(9 * (j - 1) - (index - N)) mod 9 = 0"
      unfolding mod_shift_minus by blast
    then have m: "(63 - index + N - 9 * (8 - j)) mod 9 = 0" unfolding E .
    have lin: "0 \<le> N \<and> 9 * (8 - j) \<le> 63 - index + N \<and> 63 - index + N < 64"
      using i assms(2-4) b by auto
    show "0 \<le> N \<and> 9 * (8 - j) \<le> 63 - index + N \<and> 63 - index + N < 64 \<and> (63 - index + N - 9 * (8 - j)) mod 9 = 0"
      using m lin by blast
  qed
  finally show ?thesis .
qed



subsection \<open>The direction blocks as runs\<close>

definition empty_cells :: "64 word \<Rightarrow> 64 word \<Rightarrow> 64 word" where
  "empty_cells mover opp = NOT (mover OR opp)"

definition run_end :: "64 word \<Rightarrow> 64 word \<Rightarrow> int \<Rightarrow> int \<Rightarrow> int \<Rightarrow> int \<Rightarrow> int option" where
  "run_end mover opp cx cy dx dy =
    (if bit (empty_cells mover opp) (cell_index cx cy) \<and> owns opp (cx + dx) (cy + dy)
     then ray opp (empty_cells mover opp) cx cy dx dy 2 else None)"

lemma make_masks_simps:
  "m_player (make_masks p opp) = p"
  "m_opponent (make_masks p opp) = opp"
  "m_empty (make_masks p opp) = empty_cells p opp"
  "m_right (make_masks p opp) = empty_cells p opp AND push_bit 1 opp"
  "m_left (make_masks p opp) = empty_cells p opp AND drop_bit 1 opp"
  "m_up (make_masks p opp) = empty_cells p opp AND drop_bit 8 opp"
  "m_down (make_masks p opp) = empty_cells p opp AND push_bit 8 opp"
  "m_upRight (make_masks p opp) = empty_cells p opp AND drop_bit 7 opp"
  "m_downLeft (make_masks p opp) = empty_cells p opp AND push_bit 7 opp"
  "m_upLeft (make_masks p opp) = empty_cells p opp AND drop_bit 9 opp"
  "m_downRight (make_masks p opp) = empty_cells p opp AND push_bit 9 opp"
  by (simp_all add: make_masks_def Let_def BOARD_SIZE_def empty_cells_def)

lemma ray_off_board:
  "\<not> on_board (cx + j * dx) (cy + j * dy) \<Longrightarrow> ray opp emp cx cy dx dy j = None"
  by (subst ray.simps) simp

lemma ray_step:
  "j < 8 \<Longrightarrow> owns opp (cx + j * dx) (cy + j * dy) \<Longrightarrow>
   ray opp emp cx cy dx dy j = ray opp emp cx cy dx dy (j + 1)"
  by (subst ray.simps) (simp add: owns_def)

lemma left_block_run:
  assumes "on_board x y" "index = y * 8 + x"
  shows "left_block (make_masks p opp) index x y c =
    (case run_end p opp x y 1 0 of None \<Rightarrow> c
     | Some j \<Rightarrow> apply_flip (mask_left index j) eval_left x y (j - 1) c)"
proof (cases "x + 2 < 8")
  case True
  have ob: "on_board (x + 1) (y)" using assms True by (auto simp: on_board_def)
  have idx: "nat index = cell_index x y" "1 + cell_index x y = cell_index (x + 1) (y)"
    using assms True by (auto simp: cell_index_def on_board_def)
  have sc: "left_scan opp (empty_cells p opp) index x (x + 2) =
      map_option (\<lambda>j. x + j) (ray opp (empty_cells p opp) x y 1 0 2)"
    using left_scan_ray[OF assms, of 2 opp "empty_cells p opp"] by simp
  have mb: "tst (m_left (make_masks p opp)) index \<longleftrightarrow>
      bit (empty_cells p opp) (cell_index x y) \<and> bit opp (cell_index (x + 1) (y))"
    by (simp only: tst_bit make_masks_simps bit_and_iff bit_drop_bit_eq bit_push_bit_iff comp_def idx;
        simp add: idx)
  show ?thesis
    using True ob
    by (auto simp: left_block_def make_masks_simps(1-3) BOARD_SIZE_def sc mb run_end_def
        owns_def Let_def split: option.splits)
next
  case False
  then have "\<not> on_board (x + 2 * 1) (y + 2 * 0)" by (auto simp: on_board_def)
  then have "ray opp (empty_cells p opp) x y 1 0 2 = None" by (rule ray_off_board)
  then show ?thesis
    using False by (auto simp: left_block_def BOARD_SIZE_def run_end_def)
qed

lemma right_block_run:
  assumes "on_board x y" "index = y * 8 + x"
  shows "right_block (make_masks p opp) index x y c =
    (case run_end p opp x y (- 1) 0 of None \<Rightarrow> c
     | Some j \<Rightarrow> apply_flip (mask_right index x (x - j)) eval_right x y (j - 1) c)"
proof (cases "x \<ge> 2")
  case True
  have ob: "on_board (x - 1) (y)" using assms True by (auto simp: on_board_def)
  have idx: "nat index = cell_index x y" "cell_index x y - 1 = cell_index (x - 1) (y)"
      "1 \<le> cell_index x y" "cell_index x y < 64"
    using assms True by (auto simp: cell_index_def on_board_def)
  have sc: "right_scan opp (empty_cells p opp) index x (x - 2) =
      map_option (\<lambda>j. x - j) (ray opp (empty_cells p opp) x y (- 1) 0 2)"
    using right_scan_ray[OF assms, of 2 opp "empty_cells p opp"] by simp
  have mb: "tst (m_right (make_masks p opp)) index \<longleftrightarrow>
      bit (empty_cells p opp) (cell_index x y) \<and> bit opp (cell_index (x - 1) (y))"
    by (simp only: tst_bit make_masks_simps bit_and_iff bit_drop_bit_eq bit_push_bit_iff comp_def idx;
        simp add: idx)
  show ?thesis
    using True ob
    by (auto simp: right_block_def make_masks_simps(1-3) BOARD_SIZE_def sc mb run_end_def
        owns_def Let_def split: option.splits)
next
  case False
  then have "\<not> on_board (x + 2 * (- 1)) (y + 2 * 0)" by (auto simp: on_board_def)
  then have "ray opp (empty_cells p opp) x y (- 1) 0 2 = None" by (rule ray_off_board)
  then show ?thesis
    using False by (auto simp: right_block_def BOARD_SIZE_def run_end_def)
qed

lemma up_block_run:
  assumes "on_board x y" "index = y * 8 + x"
  shows "up_block (make_masks p opp) index x y c =
    (case run_end p opp x y 0 1 of None \<Rightarrow> c
     | Some j \<Rightarrow> apply_flip (mask_up index y (y + j)) eval_up x y (j - 1) c)"
proof (cases "y + 2 < 8")
  case True
  have ob: "on_board (x) (y + 1)" using assms True by (auto simp: on_board_def)
  have idx: "nat index = cell_index x y" "8 + cell_index x y = cell_index (x) (y + 1)"
    using assms True by (auto simp: cell_index_def on_board_def)
  have sc: "up_scan opp (empty_cells p opp) index y (y + 2) =
      map_option (\<lambda>j. y + j) (ray opp (empty_cells p opp) x y 0 1 2)"
    using up_scan_ray[OF assms, of 2 opp "empty_cells p opp"] by simp
  have mb: "tst (m_up (make_masks p opp)) index \<longleftrightarrow>
      bit (empty_cells p opp) (cell_index x y) \<and> bit opp (cell_index (x) (y + 1))"
    by (simp only: tst_bit make_masks_simps bit_and_iff bit_drop_bit_eq bit_push_bit_iff comp_def idx;
        simp add: idx)
  show ?thesis
    using True ob
    by (auto simp: up_block_def make_masks_simps(1-3) BOARD_SIZE_def sc mb run_end_def
        owns_def Let_def split: option.splits)
next
  case False
  then have "\<not> on_board (x + 2 * 0) (y + 2 * 1)" by (auto simp: on_board_def)
  then have "ray opp (empty_cells p opp) x y 0 1 2 = None" by (rule ray_off_board)
  then show ?thesis
    using False by (auto simp: up_block_def BOARD_SIZE_def run_end_def)
qed

lemma down_block_run:
  assumes "on_board x y" "index = y * 8 + x"
  shows "down_block (make_masks p opp) index x y c =
    (case run_end p opp x y 0 (- 1) of None \<Rightarrow> c
     | Some j \<Rightarrow> apply_flip (mask_down index y (y - j)) eval_down x y (j - 1) c)"
proof (cases "y \<ge> 2")
  case True
  have ob: "on_board (x) (y - 1)" using assms True by (auto simp: on_board_def)
  have idx: "nat index = cell_index x y" "cell_index x y - 8 = cell_index (x) (y - 1)"
      "8 \<le> cell_index x y" "cell_index x y < 64"
    using assms True by (auto simp: cell_index_def on_board_def)
  have sc: "down_scan opp (empty_cells p opp) index y (y - 1) =
      map_option (\<lambda>j. y - j) (ray opp (empty_cells p opp) x y 0 (- 1) 1)"
    using down_scan_ray[OF assms, of 1 opp "empty_cells p opp"] by simp
  have mb: "tst (m_down (make_masks p opp)) index \<longleftrightarrow>
      bit (empty_cells p opp) (cell_index x y) \<and> bit opp (cell_index (x) (y - 1))"
    by (simp only: tst_bit make_masks_simps bit_and_iff bit_drop_bit_eq bit_push_bit_iff comp_def idx;
        simp add: idx)
  have rs: "ray opp (empty_cells p opp) x y 0 (- 1) 1 = ray opp (empty_cells p opp) x y 0 (- 1) 2"
    if "bit opp (cell_index (x) (y - 1))"
    using ray_step[of 1 opp x "0" y "(- 1)" "empty_cells p opp"] that ob by (simp add: owns_def)
  show ?thesis
    using True ob
    by (auto simp: down_block_def make_masks_simps(1-3) BOARD_SIZE_def sc mb rs run_end_def
        owns_def Let_def split: option.splits)
next
  case False
  then have "\<not> on_board (x + 2 * 0) (y + 2 * (- 1))" by (auto simp: on_board_def)
  then have "ray opp (empty_cells p opp) x y 0 (- 1) 2 = None" by (rule ray_off_board)
  then show ?thesis
    using False by (auto simp: down_block_def BOARD_SIZE_def run_end_def)
qed

lemma up_right_block_run:
  assumes "on_board x y" "index = y * 8 + x"
  shows "up_right_block (make_masks p opp) index x y c =
    (case run_end p opp x y (- 1) 1 of None \<Rightarrow> c
     | Some j \<Rightarrow> apply_flip (mask_up_right x y (y + j)) eval_up_right x y (j - 1) c)"
proof (cases "y + 2 < 8 \<and> x \<ge> 2")
  case True
  have ob: "on_board (x - 1) (y + 1)" using assms True by (auto simp: on_board_def)
  have idx: "nat index = cell_index x y" "7 + cell_index x y = cell_index (x - 1) (y + 1)"
    using assms True by (auto simp: cell_index_def on_board_def)
  have sc: "up_right_scan opp (empty_cells p opp) index x y (y + 2) (x - 2) =
      map_option (\<lambda>j. (y + j, x - j)) (ray opp (empty_cells p opp) x y (- 1) 1 2)"
    using up_right_scan_ray[OF assms, of 2 opp "empty_cells p opp"] by simp
  have mb: "tst (m_upRight (make_masks p opp)) index \<longleftrightarrow>
      bit (empty_cells p opp) (cell_index x y) \<and> bit opp (cell_index (x - 1) (y + 1))"
    by (simp only: tst_bit make_masks_simps bit_and_iff bit_drop_bit_eq bit_push_bit_iff comp_def idx;
        simp add: idx)
  show ?thesis
    using True ob
    by (auto simp: up_right_block_def make_masks_simps(1-3) BOARD_SIZE_def sc mb run_end_def
        owns_def Let_def split: option.splits)
next
  case False
  then have "\<not> on_board (x + 2 * (- 1)) (y + 2 * 1)" by (auto simp: on_board_def)
  then have "ray opp (empty_cells p opp) x y (- 1) 1 2 = None" by (rule ray_off_board)
  then show ?thesis
    using False by (auto simp: up_right_block_def BOARD_SIZE_def run_end_def)
qed

lemma down_left_block_run:
  assumes "on_board x y" "index = y * 8 + x"
  shows "down_left_block (make_masks p opp) index x y c =
    (case run_end p opp x y 1 (- 1) of None \<Rightarrow> c
     | Some j \<Rightarrow> apply_flip (mask_down_left y (y - j) (x + j)) eval_down_left x y (j - 1) c)"
proof (cases "y \<ge> 2 \<and> x + 2 < 8")
  case True
  have ob: "on_board (x + 1) (y - 1)" using assms True by (auto simp: on_board_def)
  have idx: "nat index = cell_index x y" "cell_index x y - 7 = cell_index (x + 1) (y - 1)"
      "7 \<le> cell_index x y" "cell_index x y < 64"
    using assms True by (auto simp: cell_index_def on_board_def)
  have sc: "down_left_scan opp (empty_cells p opp) index x y (y - 2) (x + 2) =
      map_option (\<lambda>j. (y - j, x + j)) (ray opp (empty_cells p opp) x y 1 (- 1) 2)"
    using down_left_scan_ray[OF assms, of 2 opp "empty_cells p opp"] by simp
  have mb: "tst (m_downLeft (make_masks p opp)) index \<longleftrightarrow>
      bit (empty_cells p opp) (cell_index x y) \<and> bit opp (cell_index (x + 1) (y - 1))"
    by (simp only: tst_bit make_masks_simps bit_and_iff bit_drop_bit_eq bit_push_bit_iff comp_def idx;
        simp add: idx)
  show ?thesis
    using True ob
    by (auto simp: down_left_block_def make_masks_simps(1-3) BOARD_SIZE_def sc mb run_end_def
        owns_def Let_def split: option.splits)
next
  case False
  then have "\<not> on_board (x + 2 * 1) (y + 2 * (- 1))" by (auto simp: on_board_def)
  then have "ray opp (empty_cells p opp) x y 1 (- 1) 2 = None" by (rule ray_off_board)
  then show ?thesis
    using False by (auto simp: down_left_block_def BOARD_SIZE_def run_end_def)
qed

lemma up_left_block_run:
  assumes "on_board x y" "index = y * 8 + x"
  shows "up_left_block (make_masks p opp) index x y c =
    (case run_end p opp x y 1 1 of None \<Rightarrow> c
     | Some j \<Rightarrow> apply_flip (mask_up_left index y (y + j)) eval_up_left x y (j - 1) c)"
proof (cases "y + 2 < 8 \<and> x + 2 < 8")
  case True
  have ob: "on_board (x + 1) (y + 1)" using assms True by (auto simp: on_board_def)
  have idx: "nat index = cell_index x y" "9 + cell_index x y = cell_index (x + 1) (y + 1)"
    using assms True by (auto simp: cell_index_def on_board_def)
  have sc: "up_left_scan opp (empty_cells p opp) index x y (y + 2) (x + 2) =
      map_option (\<lambda>j. (y + j, x + j)) (ray opp (empty_cells p opp) x y 1 1 2)"
    using up_left_scan_ray[OF assms, of 2 opp "empty_cells p opp"] by simp
  have mb: "tst (m_upLeft (make_masks p opp)) index \<longleftrightarrow>
      bit (empty_cells p opp) (cell_index x y) \<and> bit opp (cell_index (x + 1) (y + 1))"
    by (simp only: tst_bit make_masks_simps bit_and_iff bit_drop_bit_eq bit_push_bit_iff comp_def idx;
        simp add: idx)
  show ?thesis
    using True ob
    by (auto simp: up_left_block_def make_masks_simps(1-3) BOARD_SIZE_def sc mb run_end_def
        owns_def Let_def split: option.splits)
next
  case False
  then have "\<not> on_board (x + 2 * 1) (y + 2 * 1)" by (auto simp: on_board_def)
  then have "ray opp (empty_cells p opp) x y 1 1 2 = None" by (rule ray_off_board)
  then show ?thesis
    using False by (auto simp: up_left_block_def BOARD_SIZE_def run_end_def)
qed

lemma down_right_block_run:
  assumes "on_board x y" "index = y * 8 + x"
  shows "down_right_block (make_masks p opp) index x y c =
    (case run_end p opp x y (- 1) (- 1) of None \<Rightarrow> c
     | Some j \<Rightarrow> apply_flip (mask_down_right x y (y - j)) eval_down_right x y (j - 1) c)"
proof (cases "y \<ge> 2 \<and> x \<ge> 2")
  case True
  have ob: "on_board (x - 1) (y - 1)" using assms True by (auto simp: on_board_def)
  have idx: "nat index = cell_index x y" "cell_index x y - 9 = cell_index (x - 1) (y - 1)"
      "9 \<le> cell_index x y" "cell_index x y < 64"
    using assms True by (auto simp: cell_index_def on_board_def)
  have sc: "down_right_scan opp (empty_cells p opp) index x y (y - 2) (x - 2) =
      map_option (\<lambda>j. (y - j, x - j)) (ray opp (empty_cells p opp) x y (- 1) (- 1) 2)"
    using down_right_scan_ray[OF assms, of 2 opp "empty_cells p opp"] by simp
  have mb: "tst (m_downRight (make_masks p opp)) index \<longleftrightarrow>
      bit (empty_cells p opp) (cell_index x y) \<and> bit opp (cell_index (x - 1) (y - 1))"
    by (simp only: tst_bit make_masks_simps bit_and_iff bit_drop_bit_eq bit_push_bit_iff comp_def idx;
        simp add: idx)
  show ?thesis
    using True ob
    by (auto simp: down_right_block_def make_masks_simps(1-3) BOARD_SIZE_def sc mb run_end_def
        owns_def Let_def split: option.splits)
next
  case False
  then have "\<not> on_board (x + 2 * (- 1)) (y + 2 * (- 1))" by (auto simp: on_board_def)
  then have "ray opp (empty_cells p opp) x y (- 1) (- 1) 2 = None" by (rule ray_off_board)
  then show ?thesis
    using False by (auto simp: down_right_block_def BOARD_SIZE_def run_end_def)
qed


subsection \<open>Runs against the rule of the game\<close>

definition directions :: "(int \<times> int) list" where
  "directions = [(1, 0), (- 1, 0), (0, 1), (0, - 1), (- 1, 1), (1, - 1), (1, 1), (- 1, - 1)]"

definition is_empty :: "64 word \<Rightarrow> 64 word \<Rightarrow> int \<Rightarrow> int \<Rightarrow> bool" where
  "is_empty mover opp cx cy \<longleftrightarrow>
    on_board cx cy \<and> \<not> bit mover (cell_index cx cy) \<and> \<not> bit opp (cell_index cx cy)"

definition closed_run :: "64 word \<Rightarrow> 64 word \<Rightarrow> int \<Rightarrow> int \<Rightarrow> int \<Rightarrow> int \<Rightarrow> int \<Rightarrow> bool" where
  "closed_run mover opp cx cy dx dy k \<longleftrightarrow>
    1 \<le> k \<and> (\<forall>i \<in> {1..k}. owns opp (cx + i * dx) (cy + i * dy)) \<and>
    owns mover (cx + (k + 1) * dx) (cy + (k + 1) * dy)"

lemma unit_steps:
  assumes "on_board x y" "on_board (x + j * dx) (y + j * dy)" "(dx, dy) \<in> set directions" "0 \<le> j"
  shows "j < 8"
  using assms by (auto simp: directions_def on_board_def)

lemma bit_empty_cells:
  "on_board x y \<Longrightarrow> bit (empty_cells p opp) (cell_index x y) \<longleftrightarrow>
    \<not> bit p (cell_index x y) \<and> \<not> bit opp (cell_index x y)"
  by (auto simp: empty_cells_def bit_simps on_board_def cell_index_def)

lemma run_end_iff:
  assumes "on_board x y" "p AND opp = 0" "(dx, dy) \<in> set directions"
  shows "run_end p opp x y dx dy = Some j \<longleftrightarrow>
    is_empty p opp x y \<and> closed_run p opp x y dx dy (j - 1)"
proof -
  have r: "ray opp (empty_cells p opp) x y dx dy 2 = Some j \<longleftrightarrow>
    2 \<le> j \<and> j < 8 \<and> (\<forall>i. 2 \<le> i \<and> i < j \<longrightarrow> owns opp (x + i * dx) (y + i * dy)) \<and>
    owns p (x + j * dx) (y + j * dy)"
    by (rule ray_Some_iff[OF empty_cells_def assms(2)])
  have j8: "j < 8" if "owns p (x + j * dx) (y + j * dy)" "2 \<le> j"
    using unit_steps[OF assms(1) _ assms(3), of j] that by (simp add: owns_def)
  have all: "(\<forall>i \<in> {1..j - 1}. owns opp (x + i * dx) (y + i * dy)) \<longleftrightarrow>
    owns opp (x + dx) (y + dy) \<and> (\<forall>i. 2 \<le> i \<and> i < j \<longrightarrow> owns opp (x + i * dx) (y + i * dy))"
    if "2 \<le> j"
  proof
    assume a: "\<forall>i \<in> {1..j - 1}. owns opp (x + i * dx) (y + i * dy)"
    have "(1::int) \<in> {1..j - 1}" using that by simp
    then have "owns opp (x + 1 * dx) (y + 1 * dy)" using a by blast
    moreover have "owns opp (x + i * dx) (y + i * dy)" if "2 \<le> i \<and> i < j" for i
      using a that by auto
    ultimately show "owns opp (x + dx) (y + dy) \<and> (\<forall>i. 2 \<le> i \<and> i < j \<longrightarrow> owns opp (x + i * dx) (y + i * dy))"
      by simp
  next
    assume a: "owns opp (x + dx) (y + dy) \<and> (\<forall>i. 2 \<le> i \<and> i < j \<longrightarrow> owns opp (x + i * dx) (y + i * dy))"
    show "\<forall>i \<in> {1..j - 1}. owns opp (x + i * dx) (y + i * dy)"
    proof
      fix i assume "i \<in> {1..j - 1}"
      then have "i = 1 \<or> (2 \<le> i \<and> i < j)" by auto
      then show "owns opp (x + i * dx) (y + i * dy)" using a by auto
    qed
  qed
  show ?thesis
  proof (cases "2 \<le> j")
    case True
    show ?thesis
      using True j8 all[OF True] assms(1)
      by (auto simp: run_end_def r is_empty_def closed_run_def bit_empty_cells)
  next
    case False
    then show ?thesis
      by (auto simp: run_end_def r closed_run_def)
  qed
qed


definition line_bits :: "int \<Rightarrow> int \<Rightarrow> int \<Rightarrow> int \<Rightarrow> int \<Rightarrow> nat set" where
  "line_bits cx cy dx dy k = {cell_index (cx + i * dx) (cy + i * dy) | i. 0 \<le> i \<and> i \<le> k}"

lemma line_bits_iff:
  assumes "\<And>i. 0 \<le> i \<Longrightarrow> i \<le> k \<Longrightarrow> 0 \<le> (y + i * dy) * 8 + (x + i * dx)"
  shows "n \<in> line_bits x y dx dy k \<longleftrightarrow>
    (\<exists>i. 0 \<le> i \<and> i \<le> k \<and> int n = (y + i * dy) * 8 + (x + i * dx))"
proof
  assume "n \<in> line_bits x y dx dy k"
  then obtain i where i: "0 \<le> i" "i \<le> k" "n = nat ((y + i * dy) * 8 + (x + i * dx))"
    by (auto simp: line_bits_def cell_index_def)
  then have "int n = (y + i * dy) * 8 + (x + i * dx)" using assms[of i] by simp
  then show "\<exists>i. 0 \<le> i \<and> i \<le> k \<and> int n = (y + i * dy) * 8 + (x + i * dx)" using i by blast
next
  assume "\<exists>i. 0 \<le> i \<and> i \<le> k \<and> int n = (y + i * dy) * 8 + (x + i * dx)"
  then obtain i where i: "0 \<le> i" "i \<le> k" "int n = (y + i * dy) * 8 + (x + i * dx)" by blast
  then have "n = cell_index (x + i * dx) (y + i * dy)" by (simp add: cell_index_def)
  then show "n \<in> line_bits x y dx dy k" using i by (auto simp: line_bits_def)
qed

lemma bit_left_line:
  assumes "on_board x y" "index = y * 8 + x" "1 \<le> j" "on_board (x + j * 1) (y + j * 0)"
  shows "bit (mask_left index j) n \<longleftrightarrow> n \<in> line_bits x y 1 0 (j)"
proof -
  have b: "0 \<le> x" "x < 8" "0 \<le> y" "y < 8" "x + j < 8"
    using assms(1,4) by (auto simp: on_board_def)
  have nn: "0 \<le> (y + i * 0) * 8 + (x + i * 1)" if "0 \<le> i" "i \<le> j" for i
    using that b by auto
  have "bit (mask_left index j) n \<longleftrightarrow> (\<exists>i. 0 \<le> i \<and> i < j + 1 \<and> int n = index + i)"
    unfolding bit_ibit using assms(1,2,3) b(5) by (rule ibit_mask_left)
  also have "\<dots> \<longleftrightarrow> (\<exists>i. 0 \<le> i \<and> i \<le> j \<and> int n = (y + i * 0) * 8 + (x + i * 1))"
    using assms(2) by auto
  also have "\<dots> \<longleftrightarrow> n \<in> line_bits x y 1 0 (j)"
    using line_bits_iff[of "j" y "0" x "1" n] nn by blast
  finally show ?thesis .
qed

lemma bit_right_line:
  assumes "on_board x y" "index = y * 8 + x" "1 \<le> j" "on_board (x + j * (- 1)) (y + j * 0)"
  shows "bit (mask_right index x (x - j)) n \<longleftrightarrow> n \<in> line_bits x y (- 1) 0 (j - 1)"
proof -
  have b: "0 \<le> x" "x < 8" "0 \<le> y" "y < 8" "0 \<le> x - j"
    using assms(1,4) by (auto simp: on_board_def)
  have nn: "0 \<le> (y + i * 0) * 8 + (x + i * (- 1))" if "0 \<le> i" "i \<le> j - 1" for i
    using that b by auto
  have "bit (mask_right index x (x - j)) n \<longleftrightarrow> (\<exists>i. 0 \<le> i \<and> i < j \<and> int n = index - i)"
    unfolding bit_ibit using assms(1,2,3) b(5) by (rule ibit_mask_right)
  also have "\<dots> \<longleftrightarrow> (\<exists>i. 0 \<le> i \<and> i \<le> j - 1 \<and> int n = (y + i * 0) * 8 + (x + i * (- 1)))"
    using assms(2) by auto
  also have "\<dots> \<longleftrightarrow> n \<in> line_bits x y (- 1) 0 (j - 1)"
    using line_bits_iff[of "j - 1" y "0" x "(- 1)" n] nn by blast
  finally show ?thesis .
qed

lemma bit_up_line:
  assumes "on_board x y" "index = y * 8 + x" "1 \<le> j" "on_board (x + j * 0) (y + j * 1)"
  shows "bit (mask_up index y (y + j)) n \<longleftrightarrow> n \<in> line_bits x y 0 1 (j - 1)"
proof -
  have b: "0 \<le> x" "x < 8" "0 \<le> y" "y < 8" "y + j < 8"
    using assms(1,4) by (auto simp: on_board_def)
  have nn: "0 \<le> (y + i * 1) * 8 + (x + i * 0)" if "0 \<le> i" "i \<le> j - 1" for i
    using that b by auto
  have "bit (mask_up index y (y + j)) n \<longleftrightarrow> (\<exists>i. 0 \<le> i \<and> i < j \<and> int n = index + 8 * i)"
    unfolding bit_ibit using assms(1,2,3) b(5) by (rule ibit_mask_up)
  also have "\<dots> \<longleftrightarrow> (\<exists>i. 0 \<le> i \<and> i \<le> j - 1 \<and> int n = (y + i * 1) * 8 + (x + i * 0))"
    using assms(2) by auto
  also have "\<dots> \<longleftrightarrow> n \<in> line_bits x y 0 1 (j - 1)"
    using line_bits_iff[of "j - 1" y "1" x "0" n] nn by blast
  finally show ?thesis .
qed

lemma bit_down_line:
  assumes "on_board x y" "index = y * 8 + x" "1 \<le> j" "on_board (x + j * 0) (y + j * (- 1))"
  shows "bit (mask_down index y (y - j)) n \<longleftrightarrow> n \<in> line_bits x y 0 (- 1) (j - 1)"
proof -
  have b: "0 \<le> x" "x < 8" "0 \<le> y" "y < 8" "0 \<le> y - j"
    using assms(1,4) by (auto simp: on_board_def)
  have nn: "0 \<le> (y + i * (- 1)) * 8 + (x + i * 0)" if "0 \<le> i" "i \<le> j - 1" for i
    using that b by auto
  have "bit (mask_down index y (y - j)) n \<longleftrightarrow> (\<exists>i. 0 \<le> i \<and> i < j \<and> int n = index - 8 * i)"
    unfolding bit_ibit using assms(1,2,3) b(5) by (rule ibit_mask_down)
  also have "\<dots> \<longleftrightarrow> (\<exists>i. 0 \<le> i \<and> i \<le> j - 1 \<and> int n = (y + i * (- 1)) * 8 + (x + i * 0))"
    using assms(2) by auto
  also have "\<dots> \<longleftrightarrow> n \<in> line_bits x y 0 (- 1) (j - 1)"
    using line_bits_iff[of "j - 1" y "(- 1)" x "0" n] nn by blast
  finally show ?thesis .
qed

lemma bit_up_right_line:
  assumes "on_board x y" "index = y * 8 + x" "1 \<le> j" "on_board (x + j * (- 1)) (y + j * 1)"
  shows "bit (mask_up_right x y (y + j)) n \<longleftrightarrow> n \<in> line_bits x y (- 1) 1 (j - 1)"
proof -
  have b: "0 \<le> x" "x < 8" "0 \<le> y" "y < 8" "y + j < 8 \<and> 0 \<le> x - j"
    using assms(1,4) by (auto simp: on_board_def)
  have nn: "0 \<le> (y + i * 1) * 8 + (x + i * (- 1))" if "0 \<le> i" "i \<le> j - 1" for i
    using that b by auto
  have "bit (mask_up_right x y (y + j)) n \<longleftrightarrow> (\<exists>i. 0 \<le> i \<and> i < j \<and> int n = index + 7 * i)"
    unfolding bit_ibit using assms(1,2,3) b(5) by (rule ibit_mask_up_right)
  also have "\<dots> \<longleftrightarrow> (\<exists>i. 0 \<le> i \<and> i \<le> j - 1 \<and> int n = (y + i * 1) * 8 + (x + i * (- 1)))"
    using assms(2) by auto
  also have "\<dots> \<longleftrightarrow> n \<in> line_bits x y (- 1) 1 (j - 1)"
    using line_bits_iff[of "j - 1" y "1" x "(- 1)" n] nn by blast
  finally show ?thesis .
qed

lemma bit_down_left_line:
  assumes "on_board x y" "index = y * 8 + x" "1 \<le> j" "on_board (x + j * 1) (y + j * (- 1))"
  shows "bit (mask_down_left y (y - j) (x + j)) n \<longleftrightarrow> n \<in> line_bits x y 1 (- 1) (j - 1)"
proof -
  have b: "0 \<le> x" "x < 8" "0 \<le> y" "y < 8" "0 \<le> y - j \<and> x + j < 8"
    using assms(1,4) by (auto simp: on_board_def)
  have nn: "0 \<le> (y + i * (- 1)) * 8 + (x + i * 1)" if "0 \<le> i" "i \<le> j - 1" for i
    using that b by auto
  have "bit (mask_down_left y (y - j) (x + j)) n \<longleftrightarrow> (\<exists>i. 0 \<le> i \<and> i < j \<and> int n = index - 7 * i)"
    unfolding bit_ibit using assms(1,2,3) b(5) by (rule ibit_mask_down_left)
  also have "\<dots> \<longleftrightarrow> (\<exists>i. 0 \<le> i \<and> i \<le> j - 1 \<and> int n = (y + i * (- 1)) * 8 + (x + i * 1))"
    using assms(2) by auto
  also have "\<dots> \<longleftrightarrow> n \<in> line_bits x y 1 (- 1) (j - 1)"
    using line_bits_iff[of "j - 1" y "(- 1)" x "1" n] nn by blast
  finally show ?thesis .
qed

lemma bit_up_left_line:
  assumes "on_board x y" "index = y * 8 + x" "1 \<le> j" "on_board (x + j * 1) (y + j * 1)"
  shows "bit (mask_up_left index y (y + j)) n \<longleftrightarrow> n \<in> line_bits x y 1 1 (j - 1)"
proof -
  have b: "0 \<le> x" "x < 8" "0 \<le> y" "y < 8" "y + j < 8 \<and> x + j < 8"
    using assms(1,4) by (auto simp: on_board_def)
  have nn: "0 \<le> (y + i * 1) * 8 + (x + i * 1)" if "0 \<le> i" "i \<le> j - 1" for i
    using that b by auto
  have "bit (mask_up_left index y (y + j)) n \<longleftrightarrow> (\<exists>i. 0 \<le> i \<and> i < j \<and> int n = index + 9 * i)"
    unfolding bit_ibit using assms(1,2,3) b(5) by (rule ibit_mask_up_left)
  also have "\<dots> \<longleftrightarrow> (\<exists>i. 0 \<le> i \<and> i \<le> j - 1 \<and> int n = (y + i * 1) * 8 + (x + i * 1))"
    using assms(2) by auto
  also have "\<dots> \<longleftrightarrow> n \<in> line_bits x y 1 1 (j - 1)"
    using line_bits_iff[of "j - 1" y "1" x "1" n] nn by blast
  finally show ?thesis .
qed

lemma bit_down_right_line:
  assumes "on_board x y" "index = y * 8 + x" "1 \<le> j" "on_board (x + j * (- 1)) (y + j * (- 1))"
  shows "bit (mask_down_right x y (y - j)) n \<longleftrightarrow> n \<in> line_bits x y (- 1) (- 1) (j - 1)"
proof -
  have b: "0 \<le> x" "x < 8" "0 \<le> y" "y < 8" "0 \<le> y - j \<and> 0 \<le> x - j"
    using assms(1,4) by (auto simp: on_board_def)
  have nn: "0 \<le> (y + i * (- 1)) * 8 + (x + i * (- 1))" if "0 \<le> i" "i \<le> j - 1" for i
    using that b by auto
  have "bit (mask_down_right x y (y - j)) n \<longleftrightarrow> (\<exists>i. 0 \<le> i \<and> i < j \<and> int n = index - 9 * i)"
    unfolding bit_ibit using assms(1,2,3) b(5) by (rule ibit_mask_down_right)
  also have "\<dots> \<longleftrightarrow> (\<exists>i. 0 \<le> i \<and> i \<le> j - 1 \<and> int n = (y + i * (- 1)) * 8 + (x + i * (- 1)))"
    using assms(2) by auto
  also have "\<dots> \<longleftrightarrow> n \<in> line_bits x y (- 1) (- 1) (j - 1)"
    using line_bits_iff[of "j - 1" y "(- 1)" x "(- 1)" n] nn by blast
  finally show ?thesis .
qed


subsection \<open>The effect of one direction block, and of one cell\<close>

definition fires :: "64 word \<Rightarrow> 64 word \<Rightarrow> int \<Rightarrow> int \<Rightarrow> int \<Rightarrow> int \<Rightarrow> bool" where
  "fires mover opp cx cy dx dy \<longleftrightarrow>
    is_empty mover opp cx cy \<and> (\<exists>k. closed_run mover opp cx cy dx dy k)"

definition hits :: "64 word \<Rightarrow> 64 word \<Rightarrow> int \<Rightarrow> int \<Rightarrow> int \<Rightarrow> int \<Rightarrow> int \<Rightarrow> nat \<Rightarrow> bool" where
  "hits mover opp cx cy dx dy e n \<longleftrightarrow>
    is_empty mover opp cx cy \<and>
    (\<exists>k. closed_run mover opp cx cy dx dy k \<and> n \<in> line_bits cx cy dx dy (k + e))"

lemma block_bits_generic:
  assumes B: "B c = (case run_end p opp x y dx dy of None \<Rightarrow> c
                     | Some j \<Rightarrow> apply_flip (mk j) ev x y (j - 1) c)"
    and ob: "on_board x y" and disj: "p AND opp = 0" and d: "(dx, dy) \<in> set directions"
    and mk: "\<And>j n. 1 \<le> j \<Longrightarrow> on_board (x + j * dx) (y + j * dy) \<Longrightarrow>
               bit (mk j) n \<longleftrightarrow> n \<in> line_bits x y dx dy (j - 1 + e)"
    and c: "c = (s, v, bp, bo)" "B c = (s', v', bp', bo')"
  shows "(s' \<longleftrightarrow> s \<or> fires p opp x y dx dy) \<and>
    (\<forall>n. bit bp' n \<longleftrightarrow> bit bp n \<or> hits p opp x y dx dy e n) \<and>
    (\<forall>n. bit bo' n \<longleftrightarrow> bit bo n \<and> \<not> hits p opp x y dx dy e n)"
proof (cases "run_end p opp x y dx dy")
  case None
  have no: "\<not> (is_empty p opp x y \<and> closed_run p opp x y dx dy k)" for k
  proof -
    have "run_end p opp x y dx dy \<noteq> Some (k + 1)" using None by simp
    then show ?thesis unfolding run_end_iff[OF ob disj d] by simp
  qed
  have nf: "\<not> fires p opp x y dx dy"
    unfolding fires_def using no by blast
  have nh: "\<not> hits p opp x y dx dy e n" for n
    unfolding hits_def using no by blast
  have "B c = c" using B None by simp
  then have "s' = s" "bp' = bp" "bo' = bo" using c by simp_all
  then show ?thesis using nf nh by simp
next
  case (Some j)
  have run: "is_empty p opp x y \<and> closed_run p opp x y dx dy (j - 1)"
    using Some unfolding run_end_iff[OF ob disj d] .
  have uniq: "k = j - 1" if "closed_run p opp x y dx dy k" for k
  proof -
    have "is_empty p opp x y \<and> closed_run p opp x y dx dy (k + 1 - 1)"
      using that run by simp
    then have "run_end p opp x y dx dy = Some (k + 1)"
      unfolding run_end_iff[OF ob disj d] .
    then show ?thesis using Some by simp
  qed
  have j1: "1 \<le> j" and obj: "on_board (x + j * dx) (y + j * dy)"
    using run by (simp_all add: closed_run_def owns_def)
  have f: "fires p opp x y dx dy" unfolding fires_def using run by blast
  have h: "hits p opp x y dx dy e n \<longleftrightarrow> bit (mk j) n" for n
  proof
    assume "hits p opp x y dx dy e n"
    then obtain k where k: "closed_run p opp x y dx dy k" "n \<in> line_bits x y dx dy (k + e)"
      unfolding hits_def by blast
    then have "n \<in> line_bits x y dx dy (j - 1 + e)" using uniq[OF k(1)] by simp
    then show "bit (mk j) n" using mk[OF j1 obj] by simp
  next
    assume "bit (mk j) n"
    then have "n \<in> line_bits x y dx dy (j - 1 + e)" using mk[OF j1 obj] by simp
    then show "hits p opp x y dx dy e n" unfolding hits_def using run by blast
  qed
  have "B c = apply_flip (mk j) ev x y (j - 1) c" using B Some by simp
  then have r: "s' = True" "bp' = bp OR mk j" "bo' = bo AND NOT (mk j)"
    using c by (simp_all add: apply_flip_def Let_def)
  have 1: "s' \<longleftrightarrow> s \<or> fires p opp x y dx dy" using r f by simp
  have 2: "bit bp' n \<longleftrightarrow> bit bp n \<or> hits p opp x y dx dy e n" for n
    unfolding r h by (simp add: bit_or_iff)
  have 3: "bit bo' n \<longleftrightarrow> bit bo n \<and> \<not> hits p opp x y dx dy e n" for n
    unfolding r h by (auto simp: bit_and_iff bit_not_iff dest: bit_imp_possible_bit)
  show ?thesis using 1 2 3 by blast
qed


lemma left_block_effect:
  assumes ob: "on_board x y" and idx: "index = y * 8 + x" and disj: "p AND opp = 0"
    and r: "left_block (make_masks p opp) index x y (s, v, bp, bo) = (s', v', bp', bo')"
  shows "(s' \<longleftrightarrow> s \<or> fires p opp x y 1 0) \<and>
    (\<forall>n. bit bp' n \<longleftrightarrow> bit bp n \<or> hits p opp x y 1 0 1 n) \<and>
    (\<forall>n. bit bo' n \<longleftrightarrow> bit bo n \<and> \<not> hits p opp x y 1 0 1 n)"
proof (rule block_bits_generic[where B = "left_block (make_masks p opp) index x y"
      and mk = "\<lambda>j. mask_left index j" and ev = eval_left and c = "(s, v, bp, bo)"])
  show "left_block (make_masks p opp) index x y (s, v, bp, bo) =
    (case run_end p opp x y 1 0 of None \<Rightarrow> (s, v, bp, bo)
     | Some j \<Rightarrow> apply_flip (mask_left index j) eval_left x y (j - 1) (s, v, bp, bo))"
    by (rule left_block_run[OF ob idx])
  show "(1, 0) \<in> set directions" by (simp add: directions_def)
  show "bit (mask_left index j) n \<longleftrightarrow> n \<in> line_bits x y 1 0 (j - 1 + 1)"
    if "1 \<le> j" "on_board (x + j * 1) (y + j * 0)" for j n
    using bit_left_line[OF ob idx that] by simp
qed (use ob disj r in simp_all)

lemma right_block_effect:
  assumes ob: "on_board x y" and idx: "index = y * 8 + x" and disj: "p AND opp = 0"
    and r: "right_block (make_masks p opp) index x y (s, v, bp, bo) = (s', v', bp', bo')"
  shows "(s' \<longleftrightarrow> s \<or> fires p opp x y (- 1) 0) \<and>
    (\<forall>n. bit bp' n \<longleftrightarrow> bit bp n \<or> hits p opp x y (- 1) 0 0 n) \<and>
    (\<forall>n. bit bo' n \<longleftrightarrow> bit bo n \<and> \<not> hits p opp x y (- 1) 0 0 n)"
proof (rule block_bits_generic[where B = "right_block (make_masks p opp) index x y"
      and mk = "\<lambda>j. mask_right index x (x - j)" and ev = eval_right and c = "(s, v, bp, bo)"])
  show "right_block (make_masks p opp) index x y (s, v, bp, bo) =
    (case run_end p opp x y (- 1) 0 of None \<Rightarrow> (s, v, bp, bo)
     | Some j \<Rightarrow> apply_flip (mask_right index x (x - j)) eval_right x y (j - 1) (s, v, bp, bo))"
    by (rule right_block_run[OF ob idx])
  show "((- 1), 0) \<in> set directions" by (simp add: directions_def)
  show "bit (mask_right index x (x - j)) n \<longleftrightarrow> n \<in> line_bits x y (- 1) 0 (j - 1 + 0)"
    if "1 \<le> j" "on_board (x + j * (- 1)) (y + j * 0)" for j n
    using bit_right_line[OF ob idx that] by simp
qed (use ob disj r in simp_all)

lemma up_block_effect:
  assumes ob: "on_board x y" and idx: "index = y * 8 + x" and disj: "p AND opp = 0"
    and r: "up_block (make_masks p opp) index x y (s, v, bp, bo) = (s', v', bp', bo')"
  shows "(s' \<longleftrightarrow> s \<or> fires p opp x y 0 1) \<and>
    (\<forall>n. bit bp' n \<longleftrightarrow> bit bp n \<or> hits p opp x y 0 1 0 n) \<and>
    (\<forall>n. bit bo' n \<longleftrightarrow> bit bo n \<and> \<not> hits p opp x y 0 1 0 n)"
proof (rule block_bits_generic[where B = "up_block (make_masks p opp) index x y"
      and mk = "\<lambda>j. mask_up index y (y + j)" and ev = eval_up and c = "(s, v, bp, bo)"])
  show "up_block (make_masks p opp) index x y (s, v, bp, bo) =
    (case run_end p opp x y 0 1 of None \<Rightarrow> (s, v, bp, bo)
     | Some j \<Rightarrow> apply_flip (mask_up index y (y + j)) eval_up x y (j - 1) (s, v, bp, bo))"
    by (rule up_block_run[OF ob idx])
  show "(0, 1) \<in> set directions" by (simp add: directions_def)
  show "bit (mask_up index y (y + j)) n \<longleftrightarrow> n \<in> line_bits x y 0 1 (j - 1 + 0)"
    if "1 \<le> j" "on_board (x + j * 0) (y + j * 1)" for j n
    using bit_up_line[OF ob idx that] by simp
qed (use ob disj r in simp_all)

lemma down_block_effect:
  assumes ob: "on_board x y" and idx: "index = y * 8 + x" and disj: "p AND opp = 0"
    and r: "down_block (make_masks p opp) index x y (s, v, bp, bo) = (s', v', bp', bo')"
  shows "(s' \<longleftrightarrow> s \<or> fires p opp x y 0 (- 1)) \<and>
    (\<forall>n. bit bp' n \<longleftrightarrow> bit bp n \<or> hits p opp x y 0 (- 1) 0 n) \<and>
    (\<forall>n. bit bo' n \<longleftrightarrow> bit bo n \<and> \<not> hits p opp x y 0 (- 1) 0 n)"
proof (rule block_bits_generic[where B = "down_block (make_masks p opp) index x y"
      and mk = "\<lambda>j. mask_down index y (y - j)" and ev = eval_down and c = "(s, v, bp, bo)"])
  show "down_block (make_masks p opp) index x y (s, v, bp, bo) =
    (case run_end p opp x y 0 (- 1) of None \<Rightarrow> (s, v, bp, bo)
     | Some j \<Rightarrow> apply_flip (mask_down index y (y - j)) eval_down x y (j - 1) (s, v, bp, bo))"
    by (rule down_block_run[OF ob idx])
  show "(0, (- 1)) \<in> set directions" by (simp add: directions_def)
  show "bit (mask_down index y (y - j)) n \<longleftrightarrow> n \<in> line_bits x y 0 (- 1) (j - 1 + 0)"
    if "1 \<le> j" "on_board (x + j * 0) (y + j * (- 1))" for j n
    using bit_down_line[OF ob idx that] by simp
qed (use ob disj r in simp_all)

lemma up_right_block_effect:
  assumes ob: "on_board x y" and idx: "index = y * 8 + x" and disj: "p AND opp = 0"
    and r: "up_right_block (make_masks p opp) index x y (s, v, bp, bo) = (s', v', bp', bo')"
  shows "(s' \<longleftrightarrow> s \<or> fires p opp x y (- 1) 1) \<and>
    (\<forall>n. bit bp' n \<longleftrightarrow> bit bp n \<or> hits p opp x y (- 1) 1 0 n) \<and>
    (\<forall>n. bit bo' n \<longleftrightarrow> bit bo n \<and> \<not> hits p opp x y (- 1) 1 0 n)"
proof (rule block_bits_generic[where B = "up_right_block (make_masks p opp) index x y"
      and mk = "\<lambda>j. mask_up_right x y (y + j)" and ev = eval_up_right and c = "(s, v, bp, bo)"])
  show "up_right_block (make_masks p opp) index x y (s, v, bp, bo) =
    (case run_end p opp x y (- 1) 1 of None \<Rightarrow> (s, v, bp, bo)
     | Some j \<Rightarrow> apply_flip (mask_up_right x y (y + j)) eval_up_right x y (j - 1) (s, v, bp, bo))"
    by (rule up_right_block_run[OF ob idx])
  show "((- 1), 1) \<in> set directions" by (simp add: directions_def)
  show "bit (mask_up_right x y (y + j)) n \<longleftrightarrow> n \<in> line_bits x y (- 1) 1 (j - 1 + 0)"
    if "1 \<le> j" "on_board (x + j * (- 1)) (y + j * 1)" for j n
    using bit_up_right_line[OF ob idx that] by simp
qed (use ob disj r in simp_all)

lemma down_left_block_effect:
  assumes ob: "on_board x y" and idx: "index = y * 8 + x" and disj: "p AND opp = 0"
    and r: "down_left_block (make_masks p opp) index x y (s, v, bp, bo) = (s', v', bp', bo')"
  shows "(s' \<longleftrightarrow> s \<or> fires p opp x y 1 (- 1)) \<and>
    (\<forall>n. bit bp' n \<longleftrightarrow> bit bp n \<or> hits p opp x y 1 (- 1) 0 n) \<and>
    (\<forall>n. bit bo' n \<longleftrightarrow> bit bo n \<and> \<not> hits p opp x y 1 (- 1) 0 n)"
proof (rule block_bits_generic[where B = "down_left_block (make_masks p opp) index x y"
      and mk = "\<lambda>j. mask_down_left y (y - j) (x + j)" and ev = eval_down_left and c = "(s, v, bp, bo)"])
  show "down_left_block (make_masks p opp) index x y (s, v, bp, bo) =
    (case run_end p opp x y 1 (- 1) of None \<Rightarrow> (s, v, bp, bo)
     | Some j \<Rightarrow> apply_flip (mask_down_left y (y - j) (x + j)) eval_down_left x y (j - 1) (s, v, bp, bo))"
    by (rule down_left_block_run[OF ob idx])
  show "(1, (- 1)) \<in> set directions" by (simp add: directions_def)
  show "bit (mask_down_left y (y - j) (x + j)) n \<longleftrightarrow> n \<in> line_bits x y 1 (- 1) (j - 1 + 0)"
    if "1 \<le> j" "on_board (x + j * 1) (y + j * (- 1))" for j n
    using bit_down_left_line[OF ob idx that] by simp
qed (use ob disj r in simp_all)

lemma up_left_block_effect:
  assumes ob: "on_board x y" and idx: "index = y * 8 + x" and disj: "p AND opp = 0"
    and r: "up_left_block (make_masks p opp) index x y (s, v, bp, bo) = (s', v', bp', bo')"
  shows "(s' \<longleftrightarrow> s \<or> fires p opp x y 1 1) \<and>
    (\<forall>n. bit bp' n \<longleftrightarrow> bit bp n \<or> hits p opp x y 1 1 0 n) \<and>
    (\<forall>n. bit bo' n \<longleftrightarrow> bit bo n \<and> \<not> hits p opp x y 1 1 0 n)"
proof (rule block_bits_generic[where B = "up_left_block (make_masks p opp) index x y"
      and mk = "\<lambda>j. mask_up_left index y (y + j)" and ev = eval_up_left and c = "(s, v, bp, bo)"])
  show "up_left_block (make_masks p opp) index x y (s, v, bp, bo) =
    (case run_end p opp x y 1 1 of None \<Rightarrow> (s, v, bp, bo)
     | Some j \<Rightarrow> apply_flip (mask_up_left index y (y + j)) eval_up_left x y (j - 1) (s, v, bp, bo))"
    by (rule up_left_block_run[OF ob idx])
  show "(1, 1) \<in> set directions" by (simp add: directions_def)
  show "bit (mask_up_left index y (y + j)) n \<longleftrightarrow> n \<in> line_bits x y 1 1 (j - 1 + 0)"
    if "1 \<le> j" "on_board (x + j * 1) (y + j * 1)" for j n
    using bit_up_left_line[OF ob idx that] by simp
qed (use ob disj r in simp_all)

lemma down_right_block_effect:
  assumes ob: "on_board x y" and idx: "index = y * 8 + x" and disj: "p AND opp = 0"
    and r: "down_right_block (make_masks p opp) index x y (s, v, bp, bo) = (s', v', bp', bo')"
  shows "(s' \<longleftrightarrow> s \<or> fires p opp x y (- 1) (- 1)) \<and>
    (\<forall>n. bit bp' n \<longleftrightarrow> bit bp n \<or> hits p opp x y (- 1) (- 1) 0 n) \<and>
    (\<forall>n. bit bo' n \<longleftrightarrow> bit bo n \<and> \<not> hits p opp x y (- 1) (- 1) 0 n)"
proof (rule block_bits_generic[where B = "down_right_block (make_masks p opp) index x y"
      and mk = "\<lambda>j. mask_down_right x y (y - j)" and ev = eval_down_right and c = "(s, v, bp, bo)"])
  show "down_right_block (make_masks p opp) index x y (s, v, bp, bo) =
    (case run_end p opp x y (- 1) (- 1) of None \<Rightarrow> (s, v, bp, bo)
     | Some j \<Rightarrow> apply_flip (mask_down_right x y (y - j)) eval_down_right x y (j - 1) (s, v, bp, bo))"
    by (rule down_right_block_run[OF ob idx])
  show "((- 1), (- 1)) \<in> set directions" by (simp add: directions_def)
  show "bit (mask_down_right x y (y - j)) n \<longleftrightarrow> n \<in> line_bits x y (- 1) (- 1) (j - 1 + 0)"
    if "1 \<le> j" "on_board (x + j * (- 1)) (y + j * (- 1))" for j n
    using bit_down_right_line[OF ob idx that] by simp
qed (use ob disj r in simp_all)


definition legal_move :: "64 word \<Rightarrow> 64 word \<Rightarrow> int \<Rightarrow> int \<Rightarrow> bool" where
  "legal_move mover opp cx cy \<longleftrightarrow>
    is_empty mover opp cx cy \<and>
    (\<exists>d \<in> set directions. \<exists>k. closed_run mover opp cx cy (fst d) (snd d) k)"

definition flipped :: "64 word \<Rightarrow> 64 word \<Rightarrow> int \<Rightarrow> int \<Rightarrow> nat set" where
  "flipped mover opp cx cy =
    {cell_index (cx + i * fst d) (cy + i * snd d) | d k i.
       d \<in> set directions \<and> closed_run mover opp cx cy (fst d) (snd d) k \<and> 1 \<le> i \<and> i \<le> k}"

definition any_hit :: "64 word \<Rightarrow> 64 word \<Rightarrow> int \<Rightarrow> int \<Rightarrow> nat \<Rightarrow> bool" where
  "any_hit mover opp cx cy n \<longleftrightarrow>
    (\<exists>d \<in> set directions.
       hits mover opp cx cy (fst d) (snd d) (if d = (1, 0) then 1 else 0) n)"

lemma any_hit_unfold:
  "any_hit p opp x y n \<longleftrightarrow>
    hits p opp x y 1 0 1 n \<or> hits p opp x y (- 1) 0 0 n \<or> hits p opp x y 0 1 0 n \<or>
    hits p opp x y 0 (- 1) 0 n \<or> hits p opp x y (- 1) 1 0 n \<or> hits p opp x y 1 (- 1) 0 n \<or>
    hits p opp x y 1 1 0 n \<or> hits p opp x y (- 1) (- 1) 0 n"
  by (simp add: any_hit_def directions_def)

lemma legal_move_unfold:
  "legal_move p opp x y \<longleftrightarrow>
    fires p opp x y 1 0 \<or> fires p opp x y (- 1) 0 \<or> fires p opp x y 0 1 \<or>
    fires p opp x y 0 (- 1) \<or> fires p opp x y (- 1) 1 \<or> fires p opp x y 1 (- 1) \<or>
    fires p opp x y 1 1 \<or> fires p opp x y (- 1) (- 1)"
  by (auto simp: legal_move_def fires_def directions_def)

lemma cell_blocks_raw:
  assumes ob: "on_board x y" and idx: "index = y * 8 + x" and disj: "p AND opp = 0"
    and r: "cell_blocks (make_masks p opp) index x y (False, v0, p, opp) = (s, v, bp, bo)"
  shows "(s \<longleftrightarrow> legal_move p opp x y) \<and>
    (\<forall>n. bit bp n \<longleftrightarrow> bit p n \<or> any_hit p opp x y n) \<and>
    (\<forall>n. bit bo n \<longleftrightarrow> bit opp n \<and> \<not> any_hit p opp x y n)"
proof -
  let ?m = "make_masks p opp"
  obtain s1 v1 p1 o1 where c1: "left_block ?m index x y (False, v0, p, opp) = (s1, v1, p1, o1)"
    by (metis prod_cases4)
  obtain s2 v2 p2 o2 where c2: "right_block ?m index x y (s1, v1, p1, o1) = (s2, v2, p2, o2)"
    by (metis prod_cases4)
  obtain s3 v3 p3 o3 where c3: "up_block ?m index x y (s2, v2, p2, o2) = (s3, v3, p3, o3)"
    by (metis prod_cases4)
  obtain s4 v4 p4 o4 where c4: "down_block ?m index x y (s3, v3, p3, o3) = (s4, v4, p4, o4)"
    by (metis prod_cases4)
  obtain s5 v5 p5 o5 where c5: "up_right_block ?m index x y (s4, v4, p4, o4) = (s5, v5, p5, o5)"
    by (metis prod_cases4)
  obtain s6 v6 p6 o6 where c6: "down_left_block ?m index x y (s5, v5, p5, o5) = (s6, v6, p6, o6)"
    by (metis prod_cases4)
  obtain s7 v7 p7 o7 where c7: "up_left_block ?m index x y (s6, v6, p6, o6) = (s7, v7, p7, o7)"
    by (metis prod_cases4)
  have eq: "cell_blocks ?m index x y (False, v0, p, opp) =
      down_right_block ?m index x y (s7, v7, p7, o7)"
    unfolding cell_blocks_def c1 c2 c3 c4 c5 c6 c7 ..
  have c8: "down_right_block ?m index x y (s7, v7, p7, o7) = (s, v, bp, bo)"
    using r unfolding eq .
  have a1: "s1 \<longleftrightarrow> False \<or> fires p opp x y 1 0"
    and b1: "\<And>n. bit p1 n \<longleftrightarrow> bit p n \<or> hits p opp x y 1 0 1 n"
    and d1: "\<And>n. bit o1 n \<longleftrightarrow> bit opp n \<and> \<not> hits p opp x y 1 0 1 n"
    using left_block_effect[OF ob idx disj c1] by simp_all
  have a2: "s2 \<longleftrightarrow> s1 \<or> fires p opp x y (- 1) 0"
    and b2: "\<And>n. bit p2 n \<longleftrightarrow> bit p1 n \<or> hits p opp x y (- 1) 0 0 n"
    and d2: "\<And>n. bit o2 n \<longleftrightarrow> bit o1 n \<and> \<not> hits p opp x y (- 1) 0 0 n"
    using right_block_effect[OF ob idx disj c2] by simp_all
  have a3: "s3 \<longleftrightarrow> s2 \<or> fires p opp x y 0 1"
    and b3: "\<And>n. bit p3 n \<longleftrightarrow> bit p2 n \<or> hits p opp x y 0 1 0 n"
    and d3: "\<And>n. bit o3 n \<longleftrightarrow> bit o2 n \<and> \<not> hits p opp x y 0 1 0 n"
    using up_block_effect[OF ob idx disj c3] by simp_all
  have a4: "s4 \<longleftrightarrow> s3 \<or> fires p opp x y 0 (- 1)"
    and b4: "\<And>n. bit p4 n \<longleftrightarrow> bit p3 n \<or> hits p opp x y 0 (- 1) 0 n"
    and d4: "\<And>n. bit o4 n \<longleftrightarrow> bit o3 n \<and> \<not> hits p opp x y 0 (- 1) 0 n"
    using down_block_effect[OF ob idx disj c4] by simp_all
  have a5: "s5 \<longleftrightarrow> s4 \<or> fires p opp x y (- 1) 1"
    and b5: "\<And>n. bit p5 n \<longleftrightarrow> bit p4 n \<or> hits p opp x y (- 1) 1 0 n"
    and d5: "\<And>n. bit o5 n \<longleftrightarrow> bit o4 n \<and> \<not> hits p opp x y (- 1) 1 0 n"
    using up_right_block_effect[OF ob idx disj c5] by simp_all
  have a6: "s6 \<longleftrightarrow> s5 \<or> fires p opp x y 1 (- 1)"
    and b6: "\<And>n. bit p6 n \<longleftrightarrow> bit p5 n \<or> hits p opp x y 1 (- 1) 0 n"
    and d6: "\<And>n. bit o6 n \<longleftrightarrow> bit o5 n \<and> \<not> hits p opp x y 1 (- 1) 0 n"
    using down_left_block_effect[OF ob idx disj c6] by simp_all
  have a7: "s7 \<longleftrightarrow> s6 \<or> fires p opp x y 1 1"
    and b7: "\<And>n. bit p7 n \<longleftrightarrow> bit p6 n \<or> hits p opp x y 1 1 0 n"
    and d7: "\<And>n. bit o7 n \<longleftrightarrow> bit o6 n \<and> \<not> hits p opp x y 1 1 0 n"
    using up_left_block_effect[OF ob idx disj c7] by simp_all
  have a8: "s \<longleftrightarrow> s7 \<or> fires p opp x y (- 1) (- 1)"
    and b8: "\<And>n. bit bp n \<longleftrightarrow> bit p7 n \<or> hits p opp x y (- 1) (- 1) 0 n"
    and d8: "\<And>n. bit bo n \<longleftrightarrow> bit o7 n \<and> \<not> hits p opp x y (- 1) (- 1) 0 n"
    using down_right_block_effect[OF ob idx disj c8] by simp_all
  have 1: "s \<longleftrightarrow> legal_move p opp x y"
    unfolding legal_move_unfold a8 a7 a6 a5 a4 a3 a2 a1 by simp
  have 2: "bit bp n \<longleftrightarrow> bit p n \<or> any_hit p opp x y n" for n
    unfolding any_hit_unfold b8 b7 b6 b5 b4 b3 b2 b1 by (simp only: disj_assoc)
  have 3: "bit bo n \<longleftrightarrow> bit opp n \<and> \<not> any_hit p opp x y n" for n
    unfolding any_hit_unfold d8 d7 d6 d5 d4 d3 d2 d1 by (simp only: de_Morgan_disj conj_assoc)
  show ?thesis using 1 2 3 by simp
qed


lemma any_hit_imp:
  assumes "any_hit p opp x y n"
  shows "legal_move p opp x y \<and> (n = cell_index x y \<or> n \<in> flipped p opp x y \<or> bit p n)"
proof -
  from assms obtain d k where d: "d \<in> set directions" and e: "is_empty p opp x y"
    and run: "closed_run p opp x y (fst d) (snd d) k"
    and n: "n \<in> line_bits x y (fst d) (snd d) (k + (if d = (1, 0) then 1 else 0))"
    unfolding any_hit_def hits_def by blast
  have legal: "legal_move p opp x y"
    unfolding legal_move_def using d e run by blast
  from n obtain i where i: "0 \<le> i" "i \<le> k + 1" "n = cell_index (x + i * fst d) (y + i * snd d)"
    unfolding line_bits_def by (auto split: if_splits)
  consider "i = 0" | "1 \<le> i \<and> i \<le> k" | "i = k + 1" using i by linarith
  then have "n = cell_index x y \<or> n \<in> flipped p opp x y \<or> bit p n"
  proof cases
    case 1
    then show ?thesis using i by simp
  next
    case 2
    then have "n \<in> flipped p opp x y"
      unfolding flipped_def using d run i(3) by blast
    then show ?thesis by simp
  next
    case 3
    have "owns p (x + (k + 1) * fst d) (y + (k + 1) * snd d)"
      using run by (simp add: closed_run_def)
    then show ?thesis using 3 i(3) by (simp add: owns_def)
  qed
  then show ?thesis using legal by simp
qed

lemma any_hit_placed:
  assumes "legal_move p opp x y"
  shows "any_hit p opp x y (cell_index x y)"
proof -
  from assms obtain d k where d: "d \<in> set directions" and e: "is_empty p opp x y"
    and run: "closed_run p opp x y (fst d) (snd d) k"
    unfolding legal_move_def by blast
  have "1 \<le> k" using run by (simp add: closed_run_def)
  then have "cell_index (x + 0 * fst d) (y + 0 * snd d) \<in>
      line_bits x y (fst d) (snd d) (k + (if d = (1, 0) then 1 else 0))"
    unfolding line_bits_def by (intro CollectI exI[of _ 0]) auto
  then have "hits p opp x y (fst d) (snd d) (if d = (1, 0) then 1 else 0) (cell_index x y)"
    unfolding hits_def using e run by auto
  then show ?thesis unfolding any_hit_def using d by blast
qed

lemma any_hit_flipped:
  assumes "is_empty p opp x y" "n \<in> flipped p opp x y"
  shows "any_hit p opp x y n"
proof -
  from assms(2) obtain d k i where d: "d \<in> set directions"
    and run: "closed_run p opp x y (fst d) (snd d) k"
    and i: "1 \<le> i" "i \<le> k" "n = cell_index (x + i * fst d) (y + i * snd d)"
    unfolding flipped_def by blast
  have "n \<in> line_bits x y (fst d) (snd d) (k + (if d = (1, 0) then 1 else 0))"
    unfolding line_bits_def using i by (intro CollectI exI[of _ i]) auto
  then have "hits p opp x y (fst d) (snd d) (if d = (1, 0) then 1 else 0) n"
    unfolding hits_def using assms(1) run by auto
  then show ?thesis unfolding any_hit_def using d by blast
qed

lemma flipped_opp: "n \<in> flipped p opp x y \<Longrightarrow> bit opp n"
  unfolding flipped_def closed_run_def owns_def by auto

lemma disjoint_bits: "p AND opp = 0 \<Longrightarrow> bit p n \<Longrightarrow> \<not> bit (opp :: 64 word) n"
proof
  assume z: "p AND opp = 0" and b: "bit p n" "bit opp n"
  have "bit (p AND opp) n \<longleftrightarrow> bit (0 :: 64 word) n" by (simp only: z)
  then show False using b by (simp add: bit_and_iff)
qed

lemma cell_blocks_effect:
  assumes ob: "on_board x y" and idx: "index = y * 8 + x" and disj: "p AND opp = 0"
    and r: "cell_blocks (make_masks p opp) index x y (False, v0, p, opp) = (s, v, bp, bo)"
  shows "s \<longleftrightarrow> legal_move p opp x y"
    and "legal_move p opp x y \<Longrightarrow>
      bit bp n \<longleftrightarrow> bit p n \<or> n = cell_index x y \<or> n \<in> flipped p opp x y"
    and "legal_move p opp x y \<Longrightarrow> bit bo n \<longleftrightarrow> bit opp n \<and> n \<notin> flipped p opp x y"
    and "\<not> legal_move p opp x y \<Longrightarrow> bp = p \<and> bo = opp"
proof -
  note raw = cell_blocks_raw[OF ob idx disj r]
  have bp: "bit bp n \<longleftrightarrow> bit p n \<or> any_hit p opp x y n" for n using raw by blast
  have bo: "bit bo n \<longleftrightarrow> bit opp n \<and> \<not> any_hit p opp x y n" for n using raw by blast
  show "s \<longleftrightarrow> legal_move p opp x y" using raw by blast
  {
    assume legal: "legal_move p opp x y"
    then have e: "is_empty p opp x y" by (simp add: legal_move_def)
    show "bit bp n \<longleftrightarrow> bit p n \<or> n = cell_index x y \<or> n \<in> flipped p opp x y"
      unfolding bp using any_hit_imp[of p opp x y n] any_hit_placed[OF legal]
        any_hit_flipped[OF e, of n] by blast
    have "\<not> bit opp n" if "any_hit p opp x y n" "n \<notin> flipped p opp x y"
    proof -
      from any_hit_imp[OF that(1)] that(2) have "n = cell_index x y \<or> bit p n" by blast
      then show ?thesis using e disjoint_bits[OF disj] by (auto simp: is_empty_def)
    qed
    then show "bit bo n \<longleftrightarrow> bit opp n \<and> n \<notin> flipped p opp x y"
      unfolding bo using any_hit_flipped[OF e, of n] by blast
  }
  {
    assume nl: "\<not> legal_move p opp x y"
    then have no: "\<not> any_hit p opp x y n" for n using any_hit_imp by blast
    have "bp = p" by (rule bit_eqI) (simp add: bp no)
    moreover have "bo = opp" by (rule bit_eqI) (simp add: bo no)
    ultimately show "bp = p \<and> bo = opp" by simp
  }
qed


subsection \<open>The loops over the board\<close>

definition legal_at :: "64 word \<Rightarrow> 64 word \<Rightarrow> nat \<Rightarrow> bool" where
  "legal_at p opp n \<longleftrightarrow> legal_move p opp (int (n mod 8)) (int (n div 8))"

definition child_at :: "64 word \<Rightarrow> 64 word \<Rightarrow> nat \<Rightarrow> BoardState" where
  "child_at p opp n =
    (case cell_blocks (make_masks p opp) (int n) (int (n mod 8)) (int (n div 8)) (False, 1, p, opp) of
       (s, v, bp, bo) \<Rightarrow> BoardState None bp bo v 0 (int (n mod 8)) (int (n div 8)))"

definition gen_upto :: "64 word \<Rightarrow> 64 word \<Rightarrow> nat \<Rightarrow> BoardState list" where
  "gen_upto p opp n = map (child_at p opp) (filter (legal_at p opp) [0..<n])"

definition state_after :: "64 word \<Rightarrow> 64 word \<Rightarrow> nat \<Rightarrow> gen_state" where
  "state_after p opp n =
    \<lparr>boards = gen_upto p opp n @ [init_entry p opp],
     move = length (gen_upto p opp n),
     cap = (if length (gen_upto p opp n) < 16 then 16 else 33)\<rparr>"

definition run_upto :: "64 word \<Rightarrow> 64 word \<Rightarrow> nat \<Rightarrow> error + gen_state" where
  "run_upto p opp n =
    (if length (gen_upto p opp n) \<le> 32 then Inr (state_after p opp n) else Inl OutOfBounds)"

lemma gen_upto_Suc:
  "gen_upto p opp (Suc n) = gen_upto p opp n @ (if legal_at p opp n then [child_at p opp n] else [])"
  by (simp add: gen_upto_def)

lemma gen_upto_mono: "n \<le> n' \<Longrightarrow> length (gen_upto p opp n) \<le> length (gen_upto p opp n')"
proof (induction n')
  case 0
  then show ?case by simp
next
  case (Suc k)
  show ?case
  proof (cases "n \<le> k")
    case True
    then show ?thesis using Suc.IH by (simp add: gen_upto_Suc)
  next
    case False
    then have "n = Suc k" using Suc.prems by simp
    then show ?thesis by simp
  qed
qed

lemma cell_coords:
  assumes "n < 64"
  shows "on_board (int (n mod 8)) (int (n div 8))"
    and "int n = int (n div 8) * 8 + int (n mod 8)"
proof -
  show "on_board (int (n mod 8)) (int (n div 8))"
    using assms by (auto simp: on_board_def)
  have "n = n div 8 * 8 + n mod 8" by simp
  then have "int n = int (n div 8 * 8 + n mod 8)" by simp
  then show "int n = int (n div 8) * 8 + int (n mod 8)" by (simp only: of_nat_add of_nat_mult of_nat_numeral)
qed

lemma cell_step_state:
  assumes n: "n < 64" and disj: "p AND opp = 0" and le: "length (gen_upto p opp n) \<le> 32"
  shows "cell_step (make_masks p opp) (int n) (int (n mod 8)) (int (n div 8)) (state_after p opp n)
    = run_upto p opp (Suc n)"
proof -
  let ?cs = "gen_upto p opp n"
  obtain s v bp bo where r: "cell_blocks (make_masks p opp) (int n) (int (n mod 8)) (int (n div 8))
      (False, 1, p, opp) = (s, v, bp, bo)"
    by (metis prod_cases4)
  note eff = cell_blocks_effect[OF cell_coords[OF n] disj r]
  have s: "s \<longleftrightarrow> legal_at p opp n" using eff(1) by (simp add: legal_at_def)
  have b: "boards (state_after p opp n) ! move (state_after p opp n) = init_entry p opp"
    by (simp add: state_after_def nth_append)
  show ?thesis
  proof (cases s)
    case True
    have ch: "child_at p opp n = BoardState None bp bo v 0 (int (n mod 8)) (int (n div 8))"
      by (simp add: child_at_def r)
    have up: "gen_upto p opp (Suc n) = ?cs @ [child_at p opp n]"
      using True s by (simp add: gen_upto_Suc)
    show ?thesis
      using True le
      by (auto simp: cell_step_def b r init_entry_def make_masks_simps Let_def state_after_def
          run_upto_def up ch)
  next
    case False
    then have "bp = p \<and> bo = opp" using eff(4) s by (simp add: legal_at_def)
    moreover have "gen_upto p opp (Suc n) = ?cs" using False s by (simp add: gen_upto_Suc)
    ultimately show ?thesis
      using False le
      by (auto simp: cell_step_def b r init_entry_def Let_def state_after_def run_upto_def)
  qed
qed


lemma x_loop_unfold:
  "ix < 8 \<Longrightarrow> x_loop m iy ix idx g =
    (case cell_step m idx ix iy g of Inl e \<Rightarrow> Inl e
     | Inr g' \<Rightarrow> x_loop m iy (ix + 1) (idx + 1) g')"
  by (subst x_loop.simps) (simp add: BOARD_SIZE_def)

lemma x_loop_done: "\<not> ix < 8 \<Longrightarrow> x_loop m iy ix idx g = Inr (idx, g)"
  by (subst x_loop.simps) (simp add: BOARD_SIZE_def)

lemma y_loop_unfold:
  "iy < 8 \<Longrightarrow> y_loop m iy idx g =
    (case x_loop m iy 0 idx g of Inl e \<Rightarrow> Inl e
     | Inr (idx', g') \<Rightarrow> y_loop m (iy + 1) idx' g')"
  by (subst y_loop.simps) (simp add: BOARD_SIZE_def)

lemma y_loop_done: "\<not> iy < 8 \<Longrightarrow> y_loop m iy idx g = Inr (idx, g)"
  by (subst y_loop.simps) (simp add: BOARD_SIZE_def)

lemma x_loop_run:
  assumes disj: "p AND opp = 0" and y: "y < 8"
  shows "x \<le> 8 \<Longrightarrow> length (gen_upto p opp (8 * y + x)) \<le> 32 \<Longrightarrow>
    ix = int x \<Longrightarrow> idx = int (8 * y + x) \<Longrightarrow>
    x_loop (make_masks p opp) (int y) ix idx (state_after p opp (8 * y + x))
      = map_sum id (\<lambda>g. (int (8 * y + 8), g)) (run_upto p opp (8 * y + 8))"
proof (induction "8 - x" arbitrary: x ix idx)
  case 0
  then have x: "x = 8" using "0.hyps" "0.prems"(1) by simp
  have "\<not> ix < 8" using "0.prems"(3) x by simp
  then have "x_loop (make_masks p opp) (int y) ix idx (state_after p opp (8 * y + x))
      = Inr (idx, state_after p opp (8 * y + x))"
    by (rule x_loop_done)
  moreover have "run_upto p opp (8 * y + 8) = Inr (state_after p opp (8 * y + 8))"
    using "0.prems"(2) x by (simp add: run_upto_def)
  ultimately show ?case using "0.prems"(4) x by simp
next
  case (Suc k)
  let ?n = "8 * y + x"
  have x: "x < 8" using Suc.hyps(2) by simp
  have ix: "ix < 8" using x Suc.prems(3) by simp
  have n: "?n < 64" "?n mod 8 = x" "?n div 8 = y" using x y by auto
  have "cell_step (make_masks p opp) (int ?n) (int (?n mod 8)) (int (?n div 8))
      (state_after p opp ?n) = run_upto p opp (Suc ?n)"
    by (rule cell_step_state[OF n(1) disj Suc.prems(2)])
  then have step: "cell_step (make_masks p opp) idx ix (int y) (state_after p opp ?n)
      = run_upto p opp (Suc ?n)"
    unfolding n Suc.prems(3) Suc.prems(4) .
  show ?case
  proof (cases "length (gen_upto p opp (Suc ?n)) \<le> 32")
    case True
    have ih: "x_loop (make_masks p opp) (int y) (ix + 1) (idx + 1)
        (state_after p opp (8 * y + Suc x))
      = map_sum id (\<lambda>g. (int (8 * y + 8), g)) (run_upto p opp (8 * y + 8))"
    proof (rule Suc.hyps(1))
      show "k = 8 - Suc x" using Suc.hyps(2) by simp
      show "Suc x \<le> 8" using x by simp
      show "length (gen_upto p opp (8 * y + Suc x)) \<le> 32" using True by simp
      show "ix + 1 = int (Suc x)" using Suc.prems(3) by simp
      show "idx + 1 = int (8 * y + Suc x)" using Suc.prems(4) by simp
    qed
    have r: "run_upto p opp (Suc ?n) = Inr (state_after p opp (8 * y + Suc x))"
      using True by (simp add: run_upto_def)
    show ?thesis
      unfolding x_loop_unfold[OF ix] step r using ih by simp
  next
    case False
    have "length (gen_upto p opp (Suc ?n)) \<le> length (gen_upto p opp (8 * y + 8))"
      using x by (intro gen_upto_mono) simp
    then have "run_upto p opp (8 * y + 8) = Inl OutOfBounds"
      using False by (simp add: run_upto_def)
    moreover have "run_upto p opp (Suc ?n) = Inl OutOfBounds"
      using False by (simp add: run_upto_def)
    ultimately show ?thesis
      unfolding x_loop_unfold[OF ix] step by simp
  qed
qed

lemma y_loop_run:
  assumes disj: "p AND opp = 0"
  shows "y \<le> 8 \<Longrightarrow> length (gen_upto p opp (8 * y)) \<le> 32 \<Longrightarrow>
    iy = int y \<Longrightarrow> idx = int (8 * y) \<Longrightarrow>
    y_loop (make_masks p opp) iy idx (state_after p opp (8 * y))
      = map_sum id (\<lambda>g. (64, g)) (run_upto p opp 64)"
proof (induction "8 - y" arbitrary: y iy idx)
  case 0
  then have y: "y = 8" using "0.hyps" "0.prems"(1) by simp
  have "\<not> iy < 8" using "0.prems"(3) y by simp
  then have "y_loop (make_masks p opp) iy idx (state_after p opp (8 * y))
      = Inr (idx, state_after p opp (8 * y))"
    by (rule y_loop_done)
  moreover have "run_upto p opp 64 = Inr (state_after p opp 64)"
    using "0.prems"(2) y by (simp add: run_upto_def)
  ultimately show ?case using "0.prems"(4) y by simp
next
  case (Suc k)
  have y: "y < 8" using Suc.hyps(2) by simp
  have iy: "iy < 8" using y Suc.prems(3) by simp
  have "x_loop (make_masks p opp) (int y) 0 idx (state_after p opp (8 * y + 0))
      = map_sum id (\<lambda>g. (int (8 * y + 8), g)) (run_upto p opp (8 * y + 8))"
    using Suc.prems(2) Suc.prems(4) by (intro x_loop_run[OF disj y]) simp_all
  then have row: "x_loop (make_masks p opp) iy 0 idx (state_after p opp (8 * y))
      = map_sum id (\<lambda>g. (int (8 * y + 8), g)) (run_upto p opp (8 * y + 8))"
    using Suc.prems(3) by simp
  show ?case
  proof (cases "length (gen_upto p opp (8 * y + 8)) \<le> 32")
    case True
    have ih: "y_loop (make_masks p opp) (iy + 1) (int (8 * y + 8)) (state_after p opp (8 * Suc y))
      = map_sum id (\<lambda>g. (64, g)) (run_upto p opp 64)"
    proof (rule Suc.hyps(1))
      show "k = 8 - Suc y" using Suc.hyps(2) by simp
      show "Suc y \<le> 8" using y by simp
      show "length (gen_upto p opp (8 * Suc y)) \<le> 32" using True by (simp add: add.commute)
      show "iy + 1 = int (Suc y)" using Suc.prems(3) by simp
      show "int (8 * y + 8) = int (8 * Suc y)" by simp
    qed
    have r: "run_upto p opp (8 * y + 8) = Inr (state_after p opp (8 * Suc y))"
      using True by (simp add: run_upto_def add.commute)
    show ?thesis
      unfolding y_loop_unfold[OF iy] row r using ih by simp
  next
    case False
    have "length (gen_upto p opp (8 * y + 8)) \<le> length (gen_upto p opp 64)"
      using y by (intro gen_upto_mono) simp
    then have "run_upto p opp 64 = Inl OutOfBounds"
      using False by (simp add: run_upto_def)
    moreover have "run_upto p opp (8 * y + 8) = Inl OutOfBounds"
      using False by (simp add: run_upto_def)
    ultimately show ?thesis
      unfolding y_loop_unfold[OF iy] row by simp
  qed
qed

lemma generate_child_moves_run:
  assumes "player s AND opponent s = 0"
  shows "generate_child_moves s =
    (if length (gen_upto (opponent s) (player s) 64) \<le> 32
     then Inr (BoardState (Some (gen_upto (opponent s) (player s) 64)) (player s) (opponent s)
                 (val s) (worstBranch s) (state_x s) (state_y s))
     else Inl OutOfBounds)"
proof -
  have disj: "opponent s AND player s = 0" using assms by (simp add: and.commute)
  have s0: "state_after (opponent s) (player s) 0 =
      \<lparr>boards = [init_entry (opponent s) (player s)], move = 0, cap = 16\<rparr>"
    by (simp add: state_after_def gen_upto_def)
  have "y_loop (make_masks (opponent s) (player s)) 0 0
      \<lparr>boards = [init_entry (opponent s) (player s)], move = 0, cap = 16\<rparr>
      = map_sum id (\<lambda>g. (64, g)) (run_upto (opponent s) (player s) 64)"
    using y_loop_run[OF disj, of 0 0 0] by (simp add: s0 gen_upto_def)
  then show ?thesis
    by (simp add: generate_child_moves_def Let_def run_upto_def state_after_def)
qed


subsection \<open>The children of a position\<close>

definition all_cells :: "(int \<times> int) list" where
  "all_cells = map (\<lambda>n. (int (n mod 8), int (n div 8))) [0..<64]"

definition legal_moves :: "64 word \<Rightarrow> 64 word \<Rightarrow> (int \<times> int) list" where
  "legal_moves mover opp = filter (\<lambda>(cx, cy). legal_move mover opp cx cy) all_cells"

definition move_result :: "64 word \<Rightarrow> 64 word \<Rightarrow> int \<Rightarrow> int \<Rightarrow> BoardState \<Rightarrow> bool" where
  "move_result mover opp cx cy c \<longleftrightarrow>
    (\<forall>n. bit (player c) n \<longleftrightarrow>
       bit mover n \<or> n = cell_index cx cy \<or> n \<in> flipped mover opp cx cy) \<and>
    (\<forall>n. bit (opponent c) n \<longleftrightarrow> bit opp n \<and> n \<notin> flipped mover opp cx cy)"

lemma child_at_fields:
  "nextStates (child_at p opp n) = None"
  "worstBranch (child_at p opp n) = 0"
  "state_x (child_at p opp n) = int (n mod 8)"
  "state_y (child_at p opp n) = int (n div 8)"
  by (simp_all add: child_at_def split: prod.splits)

lemma child_at_result:
  assumes n: "n < 64" and disj: "p AND opp = 0" and legal: "legal_at p opp n"
  shows "move_result p opp (int (n mod 8)) (int (n div 8)) (child_at p opp n)"
proof -
  obtain s v bp bo where r: "cell_blocks (make_masks p opp) (int n) (int (n mod 8)) (int (n div 8))
      (False, 1, p, opp) = (s, v, bp, bo)"
    by (metis prod_cases4)
  note eff = cell_blocks_effect[OF cell_coords[OF n] disj r]
  have l: "legal_move p opp (int (n mod 8)) (int (n div 8))" using legal by (simp add: legal_at_def)
  have "player (child_at p opp n) = bp" "opponent (child_at p opp n) = bo"
    by (simp_all add: child_at_def r)
  then show ?thesis
    unfolding move_result_def using eff(2)[OF l] eff(3)[OF l] by simp
qed

lemma legal_at_fun:
  "legal_at p opp = (\<lambda>n. legal_move p opp (int (n mod 8)) (int (n div 8)))"
  by (rule ext) (simp add: legal_at_def)

lemma gen_upto_coords:
  "map (\<lambda>c. (state_x c, state_y c)) (gen_upto p opp 64) = legal_moves p opp"
  by (simp add: gen_upto_def legal_moves_def all_cells_def filter_map comp_def child_at_fields
      legal_at_fun)

lemma gen_upto_set:
  assumes "c \<in> set (gen_upto p opp 64)"
  obtains n where "n < 64" "legal_at p opp n" "c = child_at p opp n"
  using assms by (auto simp: gen_upto_def)

lemma move_result_disjoint:
  assumes disj: "p AND opp = 0" and legal: "legal_move p opp x y" and r: "move_result p opp x y c"
  shows "player c AND opponent c = 0"
proof (rule bit_eqI)
  fix n
  have e: "\<not> bit opp (cell_index x y)" using legal by (simp add: legal_move_def is_empty_def)
  have "\<not> (bit (player c) n \<and> bit (opponent c) n)"
    using r e disjoint_bits[OF disj, of n] unfolding move_result_def by blast
  then show "bit (player c AND opponent c) n \<longleftrightarrow> bit (0 :: 64 word) n"
    by (simp add: bit_and_iff)
qed

definition empties :: "BoardState \<Rightarrow> nat" where
  "empties s = card {n. n < 64 \<and> \<not> bit (player s OR opponent s) n}"

lemma move_result_empties:
  assumes legal: "legal_move p opp x y" and r: "move_result p opp x y c"
    and s: "opponent s = p" "player s = opp"
  shows "empties c < empties s"
proof -
  let ?E = "\<lambda>t. {n. n < 64 \<and> \<not> bit (player t OR opponent t) n}"
  have ob: "on_board x y" and e: "\<not> bit p (cell_index x y)" "\<not> bit opp (cell_index x y)"
    using legal by (simp_all add: legal_move_def is_empty_def)
  have lt: "cell_index x y < 64" using ob by (auto simp: on_board_def cell_index_def)
  have bits: "bit (player c OR opponent c) n \<longleftrightarrow> bit (player s OR opponent s) n \<or> n = cell_index x y"
    for n
    using r flipped_opp[of n p opp x y] unfolding move_result_def s bit_or_iff by blast
  have "?E c \<subseteq> ?E s" using bits by auto
  moreover have "cell_index x y \<in> ?E s" using lt e s by (simp add: bit_or_iff)
  moreover have "cell_index x y \<notin> ?E c" using bits by simp
  ultimately have "?E c \<subset> ?E s" by blast
  moreover have "finite (?E s)" by simp
  ultimately show ?thesis unfolding empties_def by (rule psubset_card_mono[rotated])
qed


subsection \<open>What a generated child has gained, for any two bitboards\<close>

text \<open>
  The results above need a position whose two bitboards are disjoint. The search below must
  terminate on every input, so the one thing it needs is shown without that: every child
  that \<open>generate_child_moves\<close> writes has no children of its own yet and occupies all
  cells of its parent and at least one more.
\<close>

lemma ray_range:
  "ray opp emp cx cy dx dy j0 = Some j \<Longrightarrow> j0 \<le> j \<and> on_board (cx + j * dx) (cy + j * dy)"
proof (induction opp emp cx cy dx dy j0 rule: ray.induct)
  case (1 opp emp cx cy dx dy j0)
  show ?case
  proof (cases "j0 < 8 \<and> on_board (cx + j0 * dx) (cy + j0 * dy)")
    case False
    then have "ray opp emp cx cy dx dy j0 = None" by (subst ray.simps) auto
    then show ?thesis using 1(2) by simp
  next
    case True
    show ?thesis
    proof (cases "bit opp (cell_index (cx + j0 * dx) (cy + j0 * dy))")
      case opp: True
      then have "ray opp emp cx cy dx dy j0 = ray opp emp cx cy dx dy (j0 + 1)"
        using True by (subst ray.simps) simp
      then have "j0 + 1 \<le> j \<and> on_board (cx + j * dx) (cy + j * dy)"
        using "1.IH" True opp 1(2) by simp
      then show ?thesis by simp
    next
      case False
      then have "ray opp emp cx cy dx dy j0 =
          (if bit emp (cell_index (cx + j0 * dx) (cy + j0 * dy)) then None else Some j0)"
        using True by (subst ray.simps) simp
      then have "j = j0" using 1(2) by (simp split: if_splits)
      then show ?thesis using True by simp
    qed
  qed
qed

text \<open>What a block does to the locals of the cell, for any two bitboards.\<close>

definition cell_grows :: "64 word \<Rightarrow> 64 word \<Rightarrow> nat \<Rightarrow> cell \<Rightarrow> cell \<Rightarrow> bool" where
  "cell_grows p opp i c c' \<longleftrightarrow>
    c' = c \<or>
    (fst c' \<and> bit (fst (snd (snd c'))) i \<and> \<not> bit (p OR opp) i \<and> i < 64 \<and>
     (\<forall>n. bit (fst (snd (snd c)) OR snd (snd (snd c))) n \<longrightarrow>
          bit (fst (snd (snd c')) OR snd (snd (snd c'))) n))"

lemma block_grows_generic:
  assumes B: "B c = (case run_end p opp x y dx dy of None \<Rightarrow> c
                     | Some j \<Rightarrow> apply_flip (mk j) ev x y (j - 1) c)"
    and ob: "on_board x y"
    and mk: "\<And>j n. 1 \<le> j \<Longrightarrow> on_board (x + j * dx) (y + j * dy) \<Longrightarrow>
               bit (mk j) n \<longleftrightarrow> n \<in> line_bits x y dx dy (j - 1 + e)"
    and e: "0 \<le> e"
  shows "cell_grows p opp (cell_index x y) c (B c)"
proof (cases "run_end p opp x y dx dy")
  case None
  then show ?thesis using B by (simp add: cell_grows_def)
next
  case (Some j)
  have emp: "bit (empty_cells p opp) (cell_index x y)"
    and r: "ray opp (empty_cells p opp) x y dx dy 2 = Some j"
    using Some by (auto simp: run_end_def split: if_splits)
  have j: "2 \<le> j" "on_board (x + j * dx) (y + j * dy)" using ray_range[OF r] by simp_all
  have "cell_index (x + 0 * dx) (y + 0 * dy) \<in> line_bits x y dx dy (j - 1 + e)"
    unfolding line_bits_def using j(1) e by (intro CollectI exI[of _ 0]) auto
  then have m: "bit (mk j) (cell_index x y)" using mk[of j] j by simp
  have lt: "cell_index x y < 64" using ob by (auto simp: on_board_def cell_index_def)
  have ne: "\<not> bit (p OR opp) (cell_index x y)"
    using emp ob by (simp add: bit_empty_cells bit_or_iff)
  obtain s v bp bo where c: "c = (s, v, bp, bo)" by (metis prod_cases4)
  have "B c = (True, int16_t (v + ev (bp OR mk j) (bo AND NOT (mk j)) x y (j - 1)),
      bp OR mk j, bo AND NOT (mk j))"
    using B Some c by (simp add: apply_flip_def Let_def)
  then have Bc: "fst (B c) = True" "fst (snd (snd (B c))) = bp OR mk j"
      "snd (snd (snd (B c))) = bo AND NOT (mk j)" by simp_all
  have occ: "bit (bp OR bo) n \<longrightarrow> bit ((bp OR mk j) OR (bo AND NOT (mk j))) n" for n
    by (auto simp: bit_simps dest: bit_imp_possible_bit)
  have "bit (bp OR mk j) (cell_index x y)" using m by (simp add: bit_or_iff)
  then show ?thesis
    unfolding cell_grows_def Bc using ne lt occ by (simp add: c)
qed

lemma cell_grows_trans:
  assumes "cell_grows p opp i a b" "cell_grows p opp i b c"
  shows "cell_grows p opp i a c"
proof -
  consider "b = a" | "c = b" | "b \<noteq> a \<and> c \<noteq> b" by blast
  then show ?thesis
  proof cases
    case 1 then show ?thesis using assms by simp
  next
    case 2 then show ?thesis using assms by simp
  next
    case 3
    have ab: "\<forall>n. bit (fst (snd (snd a)) OR snd (snd (snd a))) n \<longrightarrow>
          bit (fst (snd (snd b)) OR snd (snd (snd b))) n"
      using assms(1) 3 unfolding cell_grows_def by blast
    have bc: "fst c \<and> bit (fst (snd (snd c))) i \<and> \<not> bit (p OR opp) i \<and> i < 64 \<and>
        (\<forall>n. bit (fst (snd (snd b)) OR snd (snd (snd b))) n \<longrightarrow>
          bit (fst (snd (snd c)) OR snd (snd (snd c))) n)"
      using assms(2) 3 unfolding cell_grows_def by blast
    show ?thesis unfolding cell_grows_def using ab bc by blast
  qed
qed

lemma left_block_grows:
  assumes ob: "on_board x y" and idx: "index = y * 8 + x"
  shows "cell_grows p opp (cell_index x y) c (left_block (make_masks p opp) index x y c)"
proof (rule block_grows_generic[where B = "left_block (make_masks p opp) index x y"
      and mk = "\<lambda>j. mask_left index j" and ev = eval_left and e = 1
      and dx = 1 and dy = 0])
  show "left_block (make_masks p opp) index x y c =
    (case run_end p opp x y 1 0 of None \<Rightarrow> c
     | Some j \<Rightarrow> apply_flip (mask_left index j) eval_left x y (j - 1) c)"
    by (rule left_block_run[OF ob idx])
  show "bit (mask_left index j) n \<longleftrightarrow> n \<in> line_bits x y 1 0 (j - 1 + 1)"
    if "1 \<le> j" "on_board (x + j * 1) (y + j * 0)" for j n
    using bit_left_line[OF ob idx that] by simp
qed (use ob in simp_all)

lemma right_block_grows:
  assumes ob: "on_board x y" and idx: "index = y * 8 + x"
  shows "cell_grows p opp (cell_index x y) c (right_block (make_masks p opp) index x y c)"
proof (rule block_grows_generic[where B = "right_block (make_masks p opp) index x y"
      and mk = "\<lambda>j. mask_right index x (x - j)" and ev = eval_right and e = 0
      and dx = "- 1" and dy = 0])
  show "right_block (make_masks p opp) index x y c =
    (case run_end p opp x y (- 1) 0 of None \<Rightarrow> c
     | Some j \<Rightarrow> apply_flip (mask_right index x (x - j)) eval_right x y (j - 1) c)"
    by (rule right_block_run[OF ob idx])
  show "bit (mask_right index x (x - j)) n \<longleftrightarrow> n \<in> line_bits x y (- 1) 0 (j - 1 + 0)"
    if "1 \<le> j" "on_board (x + j * (- 1)) (y + j * 0)" for j n
    using bit_right_line[OF ob idx that] by simp
qed (use ob in simp_all)

lemma up_block_grows:
  assumes ob: "on_board x y" and idx: "index = y * 8 + x"
  shows "cell_grows p opp (cell_index x y) c (up_block (make_masks p opp) index x y c)"
proof (rule block_grows_generic[where B = "up_block (make_masks p opp) index x y"
      and mk = "\<lambda>j. mask_up index y (y + j)" and ev = eval_up and e = 0
      and dx = 0 and dy = 1])
  show "up_block (make_masks p opp) index x y c =
    (case run_end p opp x y 0 1 of None \<Rightarrow> c
     | Some j \<Rightarrow> apply_flip (mask_up index y (y + j)) eval_up x y (j - 1) c)"
    by (rule up_block_run[OF ob idx])
  show "bit (mask_up index y (y + j)) n \<longleftrightarrow> n \<in> line_bits x y 0 1 (j - 1 + 0)"
    if "1 \<le> j" "on_board (x + j * 0) (y + j * 1)" for j n
    using bit_up_line[OF ob idx that] by simp
qed (use ob in simp_all)

lemma down_block_grows:
  assumes ob: "on_board x y" and idx: "index = y * 8 + x"
  shows "cell_grows p opp (cell_index x y) c (down_block (make_masks p opp) index x y c)"
proof (rule block_grows_generic[where B = "down_block (make_masks p opp) index x y"
      and mk = "\<lambda>j. mask_down index y (y - j)" and ev = eval_down and e = 0
      and dx = 0 and dy = "- 1"])
  show "down_block (make_masks p opp) index x y c =
    (case run_end p opp x y 0 (- 1) of None \<Rightarrow> c
     | Some j \<Rightarrow> apply_flip (mask_down index y (y - j)) eval_down x y (j - 1) c)"
    by (rule down_block_run[OF ob idx])
  show "bit (mask_down index y (y - j)) n \<longleftrightarrow> n \<in> line_bits x y 0 (- 1) (j - 1 + 0)"
    if "1 \<le> j" "on_board (x + j * 0) (y + j * (- 1))" for j n
    using bit_down_line[OF ob idx that] by simp
qed (use ob in simp_all)

lemma up_right_block_grows:
  assumes ob: "on_board x y" and idx: "index = y * 8 + x"
  shows "cell_grows p opp (cell_index x y) c (up_right_block (make_masks p opp) index x y c)"
proof (rule block_grows_generic[where B = "up_right_block (make_masks p opp) index x y"
      and mk = "\<lambda>j. mask_up_right x y (y + j)" and ev = eval_up_right and e = 0
      and dx = "- 1" and dy = 1])
  show "up_right_block (make_masks p opp) index x y c =
    (case run_end p opp x y (- 1) 1 of None \<Rightarrow> c
     | Some j \<Rightarrow> apply_flip (mask_up_right x y (y + j)) eval_up_right x y (j - 1) c)"
    by (rule up_right_block_run[OF ob idx])
  show "bit (mask_up_right x y (y + j)) n \<longleftrightarrow> n \<in> line_bits x y (- 1) 1 (j - 1 + 0)"
    if "1 \<le> j" "on_board (x + j * (- 1)) (y + j * 1)" for j n
    using bit_up_right_line[OF ob idx that] by simp
qed (use ob in simp_all)

lemma down_left_block_grows:
  assumes ob: "on_board x y" and idx: "index = y * 8 + x"
  shows "cell_grows p opp (cell_index x y) c (down_left_block (make_masks p opp) index x y c)"
proof (rule block_grows_generic[where B = "down_left_block (make_masks p opp) index x y"
      and mk = "\<lambda>j. mask_down_left y (y - j) (x + j)" and ev = eval_down_left and e = 0
      and dx = 1 and dy = "- 1"])
  show "down_left_block (make_masks p opp) index x y c =
    (case run_end p opp x y 1 (- 1) of None \<Rightarrow> c
     | Some j \<Rightarrow> apply_flip (mask_down_left y (y - j) (x + j)) eval_down_left x y (j - 1) c)"
    by (rule down_left_block_run[OF ob idx])
  show "bit (mask_down_left y (y - j) (x + j)) n \<longleftrightarrow> n \<in> line_bits x y 1 (- 1) (j - 1 + 0)"
    if "1 \<le> j" "on_board (x + j * 1) (y + j * (- 1))" for j n
    using bit_down_left_line[OF ob idx that] by simp
qed (use ob in simp_all)

lemma up_left_block_grows:
  assumes ob: "on_board x y" and idx: "index = y * 8 + x"
  shows "cell_grows p opp (cell_index x y) c (up_left_block (make_masks p opp) index x y c)"
proof (rule block_grows_generic[where B = "up_left_block (make_masks p opp) index x y"
      and mk = "\<lambda>j. mask_up_left index y (y + j)" and ev = eval_up_left and e = 0
      and dx = 1 and dy = 1])
  show "up_left_block (make_masks p opp) index x y c =
    (case run_end p opp x y 1 1 of None \<Rightarrow> c
     | Some j \<Rightarrow> apply_flip (mask_up_left index y (y + j)) eval_up_left x y (j - 1) c)"
    by (rule up_left_block_run[OF ob idx])
  show "bit (mask_up_left index y (y + j)) n \<longleftrightarrow> n \<in> line_bits x y 1 1 (j - 1 + 0)"
    if "1 \<le> j" "on_board (x + j * 1) (y + j * 1)" for j n
    using bit_up_left_line[OF ob idx that] by simp
qed (use ob in simp_all)

lemma down_right_block_grows:
  assumes ob: "on_board x y" and idx: "index = y * 8 + x"
  shows "cell_grows p opp (cell_index x y) c (down_right_block (make_masks p opp) index x y c)"
proof (rule block_grows_generic[where B = "down_right_block (make_masks p opp) index x y"
      and mk = "\<lambda>j. mask_down_right x y (y - j)" and ev = eval_down_right and e = 0
      and dx = "- 1" and dy = "- 1"])
  show "down_right_block (make_masks p opp) index x y c =
    (case run_end p opp x y (- 1) (- 1) of None \<Rightarrow> c
     | Some j \<Rightarrow> apply_flip (mask_down_right x y (y - j)) eval_down_right x y (j - 1) c)"
    by (rule down_right_block_run[OF ob idx])
  show "bit (mask_down_right x y (y - j)) n \<longleftrightarrow> n \<in> line_bits x y (- 1) (- 1) (j - 1 + 0)"
    if "1 \<le> j" "on_board (x + j * (- 1)) (y + j * (- 1))" for j n
    using bit_down_right_line[OF ob idx that] by simp
qed (use ob in simp_all)

lemma cell_blocks_grows:
  assumes ob: "on_board x y" and idx: "index = y * 8 + x"
  shows "cell_grows p opp (cell_index x y) c (cell_blocks (make_masks p opp) index x y c)"
  unfolding cell_blocks_def
  by (intro cell_grows_trans[OF _ down_right_block_grows[OF ob idx]]
        cell_grows_trans[OF _ up_left_block_grows[OF ob idx]]
        cell_grows_trans[OF _ down_left_block_grows[OF ob idx]]
        cell_grows_trans[OF _ up_right_block_grows[OF ob idx]]
        cell_grows_trans[OF _ down_block_grows[OF ob idx]]
        cell_grows_trans[OF _ up_block_grows[OF ob idx]]
        cell_grows_trans[OF _ right_block_grows[OF ob idx]]
        left_block_grows[OF ob idx])


text \<open>What every entry of the array has gained over the position it was made from.\<close>

definition grown :: "64 word \<Rightarrow> 64 word \<Rightarrow> BoardState \<Rightarrow> bool" where
  "grown p opp c \<longleftrightarrow>
    nextStates c = None \<and>
    (\<forall>n. bit (p OR opp) n \<longrightarrow> bit (player c OR opponent c) n) \<and>
    (\<exists>n < 64. bit (player c OR opponent c) n \<and> \<not> bit (p OR opp) n)"

definition gen_inv :: "64 word \<Rightarrow> 64 word \<Rightarrow> gen_state \<Rightarrow> bool" where
  "gen_inv p opp g \<longleftrightarrow>
    length (boards g) = Suc (move g) \<and> boards g ! move g = init_entry p opp \<and>
    (\<forall>c \<in> set (take (move g) (boards g)). grown p opp c)"

lemma cell_step_inv:
  assumes r: "cell_step (make_masks p opp) index x y g = Inr g'"
    and ob: "on_board x y" and idx: "index = y * 8 + x" and inv: "gen_inv p opp g"
  shows "gen_inv p opp g'"
proof -
  have len: "length (boards g) = Suc (move g)" and b: "boards g ! move g = init_entry p opp"
    and old: "\<forall>c \<in> set (take (move g) (boards g)). grown p opp c"
    using inv by (simp_all add: gen_inv_def)
  obtain s v bp bo where
    cb: "cell_blocks (make_masks p opp) index x y (False, 1, p, opp) = (s, v, bp, bo)"
    by (metis prod_cases4)
  have gr: "cell_grows p opp (cell_index x y) (False, 1, p, opp) (s, v, bp, bo)"
    using cell_blocks_grows[OF ob idx, of p opp "(False, 1, p, opp)"] cb by simp
  show ?thesis
  proof (cases s)
    case False
    then have same: "v = 1" "bp = p" "bo = opp" using gr by (auto simp: cell_grows_def)
    have "(boards g)[move g := init_entry p opp] = boards g"
      using b by (metis list_update_id)
    then have "g' = g"
      using r cb False same b by (simp add: cell_step_def init_entry_def)
    then show ?thesis using inv by simp
  next
    case True
    let ?new = "BoardState None bp bo v 0 x y"
    have g': "g' = \<lparr>boards = (boards g)[move g := ?new] @ [init_entry p opp],
        move = move g + 1, cap = (if move g + 1 = 16 then 33 else cap g)\<rparr>"
      using r cb True b
      by (simp add: cell_step_def init_entry_def Let_def make_masks_simps(1,2) split: if_splits)
    have f: "bit bp (cell_index x y)" "\<not> bit (p OR opp) (cell_index x y)"
        "cell_index x y < 64" "\<forall>n. bit (p OR opp) n \<longrightarrow> bit (bp OR bo) n"
      using gr True unfolding cell_grows_def by auto
    have "bit (bp OR bo) (cell_index x y)" using f(1) by (simp add: bit_or_iff)
    then have "\<exists>n<64. bit (bp OR bo) n \<and> \<not> bit (p OR opp) n" using f(2,3) by blast
    then have n: "grown p opp ?new"
      using f(4) unfolding grown_def by simp
    have tk: "take (Suc (move g)) ((boards g)[move g := ?new] @ [init_entry p opp])
        = take (move g) (boards g) @ [?new]"
      using len by (simp add: upd_conv_take_nth_drop)
    show ?thesis
      unfolding gen_inv_def g' using len old n tk by (auto simp: nth_append)
  qed
qed

lemma x_loop_inv:
  "x_loop (make_masks p opp) y x index g = Inr (index', g') \<Longrightarrow> 0 \<le> x \<Longrightarrow> x \<le> 8 \<Longrightarrow>
    0 \<le> y \<Longrightarrow> y < 8 \<Longrightarrow> index = y * 8 + x \<Longrightarrow> gen_inv p opp g \<Longrightarrow>
    gen_inv p opp g' \<and> index' = y * 8 + 8"
proof (induction "make_masks p opp" y x index g rule: x_loop.induct)
  case (1 y x index g)
  show ?case
  proof (cases "x < 8")
    case False
    then show ?thesis using 1 by (simp add: x_loop_done)
  next
    case True
    obtain g1 where c: "cell_step (make_masks p opp) index x y g = Inr g1"
      using "1.prems"(1) True by (auto simp: x_loop_unfold split: sum.splits)
    have nxt: "x_loop (make_masks p opp) y (x + 1) (index + 1) g1 = Inr (index', g')"
      using "1.prems"(1) True c by (simp add: x_loop_unfold)
    have ob: "on_board x y" using True 1 by (simp add: on_board_def)
    have i1: "gen_inv p opp g1" using cell_step_inv[OF c ob] 1 by simp
    show ?thesis
      using "1.hyps"[OF _ c nxt] True 1 i1 by (simp add: BOARD_SIZE_def)
  qed
qed

lemma y_loop_inv:
  "y_loop (make_masks p opp) y index g = Inr (index', g') \<Longrightarrow> 0 \<le> y \<Longrightarrow>
    index = y * 8 \<Longrightarrow> gen_inv p opp g \<Longrightarrow> gen_inv p opp g'"
proof (induction "make_masks p opp" y index g rule: y_loop.induct)
  case (1 y index g)
  show ?case
  proof (cases "y < 8")
    case False
    then show ?thesis using 1 by (simp add: y_loop_done)
  next
    case True
    obtain i1 g1 where c: "x_loop (make_masks p opp) y 0 index g = Inr (i1, g1)"
      using "1.prems"(1) True by (auto simp: y_loop_unfold split: sum.splits)
    have nxt: "y_loop (make_masks p opp) (y + 1) i1 g1 = Inr (index', g')"
      using "1.prems"(1) True c by (simp add: y_loop_unfold)
    have i: "gen_inv p opp g1 \<and> i1 = y * 8 + 8"
      using x_loop_inv[OF c] True 1 by simp
    show ?thesis
      using "1.hyps"[OF _ c refl nxt] True 1 i by (simp add: BOARD_SIZE_def)
  qed
qed

lemma generate_child_moves_grown:
  assumes "generate_child_moves s = Inr s'"
  shows "\<exists>cs. s' = BoardState (Some cs) (player s) (opponent s) (val s) (worstBranch s)
          (state_x s) (state_y s) \<and> (\<forall>c \<in> set cs. grown (opponent s) (player s) c)"
proof -
  let ?g0 = "\<lparr>boards = [init_entry (opponent s) (player s)], move = 0, cap = 16\<rparr>"
  obtain i g where y: "y_loop (make_masks (opponent s) (player s)) 0 0 ?g0 = Inr (i, g)"
    using assms by (auto simp: generate_child_moves_def Let_def split: sum.splits)
  have "gen_inv (opponent s) (player s) ?g0" by (simp add: gen_inv_def)
  then have "gen_inv (opponent s) (player s) g" using y_loop_inv[OF y] by simp
  moreover have "s' = BoardState (Some (take (move g) (boards g))) (player s) (opponent s)
      (val s) (worstBranch s) (state_x s) (state_y s)"
    using assms y by (simp add: generate_child_moves_def Let_def)
  ultimately show ?thesis by (auto simp: gen_inv_def)
qed

lemma grown_empties:
  assumes "grown (opponent s) (player s) c"
  shows "empties c < empties s"
proof -
  obtain n where n: "n < 64" "bit (player c OR opponent c) n"
      "\<not> bit (opponent s OR player s) n"
    using assms by (auto simp: grown_def)
  have sub: "{n. n < 64 \<and> \<not> bit (player c OR opponent c) n}
      \<subseteq> {n. n < 64 \<and> \<not> bit (player s OR opponent s) n}"
    using assms by (auto simp: grown_def bit_or_iff)
  have "n \<in> {n. n < 64 \<and> \<not> bit (player s OR opponent s) n}"
    "n \<notin> {n. n < 64 \<and> \<not> bit (player c OR opponent c) n}"
    using n by (auto simp: bit_or_iff)
  then have "{n. n < 64 \<and> \<not> bit (player c OR opponent c) n}
      \<subset> {n. n < 64 \<and> \<not> bit (player s OR opponent s) n}"
    using sub by blast
  then show ?thesis unfolding empties_def by (intro psubset_card_mono) auto
qed


section \<open>The search and the turn\<close>

text \<open>
  The file-level variables \<^verbatim>\<open>placedTiles\<close>, \<^verbatim>\<open>maxDepth\<close> and \<^verbatim>\<open>visited\<close> (a 64-bit
  counter). The fourth one, \<^verbatim>\<open>head\<close>, is the tree itself and is passed beside them.
\<close>

record globals =
  placedTiles :: int
  maxDepth :: int
  visited :: nat

definition popcnt64 :: "64 word \<Rightarrow> nat" where
  "popcnt64 w = length (filter (bit w) [0..<64])"

definition children :: "BoardState \<Rightarrow> BoardState list" where
  "children state = (case nextStates state of None \<Rightarrow> [] | Some cs \<Rightarrow> cs)"

definition set_worstBranch :: "int \<Rightarrow> BoardState \<Rightarrow> BoardState" where
  "set_worstBranch w state = BoardState (nextStates state) (player state) (opponent state)
     (val state) w (state_x state) (state_y state)"

definition set_val :: "int \<Rightarrow> BoardState \<Rightarrow> BoardState" where
  "set_val v state = BoardState (nextStates state) (player state) (opponent state)
     v (worstBranch state) (state_x state) (state_y state)"

definition set_nextStates :: "BoardState list option \<Rightarrow> BoardState \<Rightarrow> BoardState" where
  "set_nextStates ns state = BoardState ns (player state) (opponent state)
     (val state) (worstBranch state) (state_x state) (state_y state)"

text \<open>
  The branch that all three tree walks share for a node without children:
  \<^verbatim>\<open>INT16_MAX / 8\<close> is 4095 and \<^verbatim>\<open>INT16_MIN / 8\<close> is -4096.
\<close>

definition game_end :: "BoardState \<Rightarrow> BoardState" where
  "game_end state =
    (if popcnt64 (player state) < popcnt64 (opponent state)
     then set_worstBranch (INT16_MAX div 8) (set_val 0 state)
     else if popcnt64 (player state) > popcnt64 (opponent state)
     then set_worstBranch (INT16_MIN div 8) (set_val 0 state)
     else set_worstBranch (- 10) (set_val 0 state))"

text \<open>
  \<^verbatim>\<open>const int16_t realVal = state->nextStates[i].value - state->nextStates[i].worstBranch\<close>:
  the difference is taken in \<^verbatim>\<open>int\<close> and stored in 16 bits. A \<^verbatim>\<open>uint8_t\<close> depth receives
  \<^verbatim>\<open>depth + 1\<close>.
\<close>

definition realVal :: "BoardState \<Rightarrow> int" where
  "realVal c = int16_t (val c - worstBranch c)"

definition uint8_t :: "nat \<Rightarrow> nat" where
  "uint8_t n = n mod 256"

text \<open>
  A bound on how deep the walks can go below a node: a node without children can be
  expanded as long as empty cells remain, a node with children is one above its children.
\<close>

fun pot :: "BoardState \<Rightarrow> nat" where
  "pot (BoardState ns p opp v w x y) =
    (case ns of
       None \<Rightarrow> Suc (card {n. n < 64 \<and> \<not> bit (p OR opp) n})
     | Some cs \<Rightarrow> Suc (fold max (map pot cs) 0))"

definition max_pot :: "BoardState list \<Rightarrow> nat" where
  "max_pot cs = fold max (map pot cs) 0"

lemma fold_max_ge: "(a :: nat) \<le> fold max xs a"
  by (induction xs arbitrary: a) (auto intro: order_trans[OF max.cobounded2])

lemma fold_max_mem: "(x :: nat) \<in> set xs \<Longrightarrow> x \<le> fold max xs a"
proof (induction xs arbitrary: a)
  case Nil
  then show ?case by simp
next
  case (Cons y ys)
  show ?case
  proof (cases "x = y")
    case True
    have "x \<le> max y a" using True by simp
    also have "\<dots> \<le> fold max ys (max y a)" by (rule fold_max_ge)
    finally show ?thesis by simp
  next
    case False
    then show ?thesis using Cons by simp
  qed
qed

lemma max_pot_mem: "c \<in> set cs \<Longrightarrow> pot c \<le> max_pot cs"
  unfolding max_pot_def by (rule fold_max_mem) simp

lemma max_pot_Cons: "max_pot cs \<le> max_pot (c # cs)"
proof -
  have "fold max xs a \<le> fold max xs b" if "a \<le> b" for xs and a b :: nat
    using that by (induction xs arbitrary: a b) (auto simp: max.coboundedI2)
  then show ?thesis by (simp add: max_pot_def)
qed

lemma pot_unfold:
  "pot state = (case nextStates state of None \<Rightarrow> Suc (empties state)
                | Some cs \<Rightarrow> Suc (max_pot cs))"
  by (cases state) (simp add: empties_def max_pot_def split: option.splits)

lemma max_pot_children:
  assumes "(if lenStates state = - 1 then generate_child_moves state else Inr state) = Inr st"
  shows "max_pot (children st) < pot state"
proof (cases "nextStates state")
  case None
  then have g: "generate_child_moves state = Inr st" using assms by (simp add: lenStates_def)
  then obtain cs where cs: "nextStates st = Some cs"
      "\<forall>c \<in> set cs. grown (opponent state) (player state) c"
    using generate_child_moves_grown[OF g] by auto
  have "pot c \<le> empties state" if "c \<in> set cs" for c
  proof -
    have "grown (opponent state) (player state) c" using cs that by simp
    then have "empties c < empties state" "nextStates c = None"
      using grown_empties by (auto simp: grown_def)
    then show ?thesis by (simp add: pot_unfold)
  qed
  then have "fold max (map pot cs) 0 \<le> empties state"
  proof (induction cs rule: rev_induct)
    case Nil
    then show ?case by simp
  next
    case (snoc c cs)
    then show ?case by simp
  qed
  then show ?thesis using cs None by (simp add: children_def pot_unfold max_pot_def)
next
  case (Some cs)
  then have "st = state" using assms by (simp add: lenStates_def)
  then show ?thesis using Some by (simp add: children_def pot_unfold)
qed

text \<open>
  \<open>search_for_moves_serial\<close> with its \<^verbatim>\<open>for\<close> loop as \<open>serial_loop\<close>: the loop runs over the
  children still to visit, \<open>mx\<close> is the local \<^verbatim>\<open>max\<close>, and a \<^verbatim>\<open>break\<close> returns the
  remaining children untouched. Each function returns the node (or the children) as the
  C code leaves them in memory, and the file-level variables. The assertions of the source
  are checks of a debug build and have no branch here.
\<close>

function search_for_moves_serial ::
    "globals \<Rightarrow> BoardState \<Rightarrow> int \<Rightarrow> int \<Rightarrow> nat \<Rightarrow> error + (BoardState \<times> globals)"
  and serial_loop ::
    "globals \<Rightarrow> BoardState list \<Rightarrow> int \<Rightarrow> int \<Rightarrow> nat \<Rightarrow> int
      \<Rightarrow> error + (BoardState list \<times> globals \<times> int)"
where
  "search_for_moves_serial g state alpha beta depth =
    (case (if lenStates state = - 1 then generate_child_moves state else Inr state) of
       Inl e \<Rightarrow> Inl e
     | Inr st \<Rightarrow>
         if lenStates st > 0 then
           (if int depth < maxDepth g then
              (let g1 = g\<lparr>visited := (visited g + nat (lenStates st)) mod 2 ^ 64\<rparr>
               in if visited g1 > MOVE_CUTOFF then Inr (st, g1\<lparr>maxDepth := int depth\<rparr>)
                  else
                    (case serial_loop g1 (children st) alpha beta depth INT16_MIN of
                       Inl e \<Rightarrow> Inl e
                     | Inr (cs, g2, mx) \<Rightarrow>
                         Inr (set_worstBranch mx (set_nextStates (Some cs) st), g2)))
            else Inr (st, g))
         else Inr (game_end st, g))"
| "serial_loop g [] alpha beta depth mx = Inr ([], g, mx)"
| "serial_loop g (c # rest) alpha beta depth mx =
    (case search_for_moves_serial g c beta alpha (uint8_t (depth + 1)) of
       Inl e \<Rightarrow> Inl e
     | Inr (c', g') \<Rightarrow>
         (let mx' = (if realVal c' > mx then realVal c' else mx);
              alpha' = (if alpha > mx' then alpha else mx')
          in if beta \<noteq> INT16_MIN \<and> mx' > beta then Inr (c' # rest, g', mx')
             else
               (case serial_loop g' rest alpha' beta depth mx' of
                  Inl e \<Rightarrow> Inl e
                | Inr (rest', g'', m) \<Rightarrow> Inr (c' # rest', g'', m))))"
  by pat_completeness auto
termination
proof (relation "inv_image (less_than <*lex*> less_than)
    (\<lambda>a. case a of Inl (g, state, alpha, beta, depth) \<Rightarrow> (pot state, 0)
                 | Inr (g, cs, alpha, beta, depth, mx) \<Rightarrow> (max_pot cs, Suc (length cs)))",
    goal_cases)
  case 1
  show ?case by (intro wf_inv_image wf_lex_prod wf_less_than)
next
  case (2 g state alpha beta depth st g1)
  then show ?case using max_pot_children[of state st] by simp
next
  case (3 g c rest alpha beta depth mx)
  have "pot c \<le> max_pot (c # rest)" by (rule max_pot_mem) simp
  then show ?case by auto
next
  case 4
  have "max_pot rest \<le> max_pot (c # rest)" for c rest by (rule max_pot_Cons)
  then show ?case by (auto simp: le_less)
qed

declare search_for_moves_serial.simps [simp del] serial_loop.simps [simp del]


lemma pot_children:
  assumes "c \<in> set (children state)"
  shows "pot c < pot state"
proof -
  obtain cs where cs: "nextStates state = Some cs" "c \<in> set cs"
    using assms by (cases "nextStates state") (auto simp: children_def)
  have "pot c \<le> max_pot cs" using cs(2) by (rule max_pot_mem)
  then show ?thesis using cs(1) by (simp add: pot_unfold[of state])
qed

function recalculate_move_values :: "globals \<Rightarrow> BoardState \<Rightarrow> nat \<Rightarrow> BoardState" where
  "recalculate_move_values g state depth =
    (if lenStates state > 0 then
       (if int depth < maxDepth g then
          (let cs = map (\<lambda>c. recalculate_move_values g c (uint8_t (depth + 1))) (children state);
               mx = fold (\<lambda>c mx. if realVal c > mx then realVal c else mx) cs INT16_MIN
           in set_worstBranch mx (set_nextStates (Some cs) state))
        else state)
     else game_end state)"
  by pat_completeness auto
termination
  by (relation "measure (\<lambda>(g, state, depth). pot state)") (auto simp: pot_children)

declare recalculate_move_values.simps [simp del]

text \<open>
  \<open>search_for_moves_paralell\<close>. At depth \<open>parDepth\<close> the C code starts one thread per child,
  each running \<open>search_for_moves_serial\<close> with the bounds of the parent (not swapped), and
  joins them all. The threads share \<^verbatim>\<open>visited\<close> and \<^verbatim>\<open>maxDepth\<close> without synchronisation;
  \<open>run_threads\<close> is the schedule in which they run one after the other in the order of
  their creation.
\<close>

fun run_threads ::
    "globals \<Rightarrow> BoardState list \<Rightarrow> int \<Rightarrow> int \<Rightarrow> nat \<Rightarrow> error + (BoardState list \<times> globals)"
where
  "run_threads g [] alpha beta depth = Inr ([], g)"
| "run_threads g (c # rest) alpha beta depth =
    (case search_for_moves_serial g c alpha beta depth of
       Inl e \<Rightarrow> Inl e
     | Inr (c', g') \<Rightarrow>
         (case run_threads g' rest alpha beta depth of
            Inl e \<Rightarrow> Inl e
          | Inr (rest', g'') \<Rightarrow> Inr (c' # rest', g'')))"

function search_for_moves_paralell ::
    "globals \<Rightarrow> BoardState \<Rightarrow> int \<Rightarrow> int \<Rightarrow> nat \<Rightarrow> int \<Rightarrow> error + (BoardState \<times> globals)"
  and paralell_loop ::
    "globals \<Rightarrow> BoardState list \<Rightarrow> int \<Rightarrow> int \<Rightarrow> nat \<Rightarrow> int \<Rightarrow> int
      \<Rightarrow> error + (BoardState list \<times> globals \<times> int)"
where
  "search_for_moves_paralell g state alpha beta depth parDepth =
    (case (if lenStates state = - 1 then generate_child_moves state else Inr state) of
       Inl e \<Rightarrow> Inl e
     | Inr st \<Rightarrow>
         if lenStates st > 0 then
           (if int depth < maxDepth g then
              (let g1 = g\<lparr>visited := (visited g + nat (lenStates st)) mod 2 ^ 64\<rparr>
               in if visited g1 > MOVE_CUTOFF then Inr (st, g1\<lparr>maxDepth := int depth\<rparr>)
                  else if parDepth = int depth then
                    (case run_threads g1 (children st) alpha beta (uint8_t (depth + 1)) of
                       Inl e \<Rightarrow> Inl e
                     | Inr (cs, g2) \<Rightarrow>
                         (let worst = fold (\<lambda>c w. if realVal c > w then realVal c else w) cs INT16_MIN
                          in Inr (set_worstBranch worst (set_nextStates (Some cs) st), g2)))
                  else
                    (case paralell_loop g1 (children st) alpha beta depth parDepth INT16_MIN of
                       Inl e \<Rightarrow> Inl e
                     | Inr (cs, g2, worst) \<Rightarrow>
                         Inr (set_worstBranch worst (set_nextStates (Some cs) st), g2)))
            else Inr (st, g))
         else Inr (game_end st, g))"
| "paralell_loop g [] alpha beta depth parDepth worst = Inr ([], g, worst)"
| "paralell_loop g (c # rest) alpha beta depth parDepth worst =
    (case search_for_moves_paralell g c beta alpha (uint8_t (depth + 1)) parDepth of
       Inl e \<Rightarrow> Inl e
     | Inr (c', g') \<Rightarrow>
         (let worst' = (if realVal c' > worst then realVal c' else worst);
              alpha' = (if alpha > worst' then alpha else worst')
          in if beta \<noteq> INT16_MIN \<and> worst' > beta then Inr (c' # rest, g', worst')
             else
               (case paralell_loop g' rest alpha' beta depth parDepth worst' of
                  Inl e \<Rightarrow> Inl e
                | Inr (rest', g'', w) \<Rightarrow> Inr (c' # rest', g'', w))))"
  by pat_completeness auto
termination
proof (relation "inv_image (less_than <*lex*> less_than)
    (\<lambda>a. case a of Inl (g, state, alpha, beta, depth, parDepth) \<Rightarrow> (pot state, 0)
                 | Inr (g, cs, alpha, beta, depth, parDepth, worst) \<Rightarrow>
                     (max_pot cs, Suc (length cs)))",
    goal_cases)
  case 1
  show ?case by (intro wf_inv_image wf_lex_prod wf_less_than)
next
  case (2 g state alpha beta depth parDepth st g1)
  then show ?case using max_pot_children[of state st] by simp
next
  case (3 g c rest alpha beta depth parDepth worst)
  have "pot c \<le> max_pot (c # rest)" by (rule max_pot_mem) simp
  then show ?case by auto
next
  case 4
  have "max_pot rest \<le> max_pot (c # rest)" for c rest by (rule max_pot_Cons)
  then show ?case by (auto simp: le_less)
qed

declare search_for_moves_paralell.simps [simp del] paralell_loop.simps [simp del]

subsection \<open>The turn\<close>

text \<open>
  The board the caller passes is a list of rows; a cell is a tuple when it is empty and
  the identity of a player otherwise. \<^verbatim>\<open>rand()\<close> is the argument \<open>rnd\<close>. \<open>revai_ai\<close> is cut
  in three: \<open>sync_head\<close> brings \<^verbatim>\<open>head\<close> up to the board (lines 748-805), \<open>search_turn\<close>
  chooses the depth, searches and reconciles (lines 807-851), \<open>select_move\<close> picks the
  move (lines 859-915).
\<close>

datatype PyObject = PyTuple | PyPlayer int

type_synonym board = "PyObject list list"

definition get_item :: "board \<Rightarrow> nat \<Rightarrow> nat \<Rightarrow> PyObject" where
  "get_item pyBoard x y = pyBoard ! y ! x"

definition read_board :: "board \<Rightarrow> int \<Rightarrow> 64 word \<times> 64 word \<times> int \<Rightarrow> 64 word \<times> 64 word \<times> int" where
  "read_board pyBoard pyPlayer =
    fold (\<lambda>index (pl, op, placed).
            case get_item pyBoard (index mod 8) (index div 8) of
              PyTuple \<Rightarrow> (pl, op, placed)
            | PyPlayer t \<Rightarrow>
                if t = pyPlayer then (pl, op OR push_bit index 1, placed + 1)
                else (pl OR push_bit index 1, op, placed + 1))
         [0..<64]"

definition choose_depth :: "int \<Rightarrow> int" where
  "choose_depth placed =
    (if placed < 25 then 3
     else if placed < 30 then 5
     else if placed < 35 then 6
     else if placed < 40 then 7
     else if placed < 45 then 7
     else if placed < 50 then 7
     else 8)"

definition find_move :: "board \<Rightarrow> BoardState \<Rightarrow> BoardState option" where
  "find_move pyBoard head =
    find (\<lambda>nxt. get_item pyBoard (nat (state_x nxt)) (nat (state_y nxt)) \<noteq> PyTuple) (children head)"

type_synonym engine = "BoardState \<times> globals"

definition sync_head :: "board \<Rightarrow> int \<Rightarrow> engine \<Rightarrow> engine" where
  "sync_head pyBoard pyPlayer e =
    (case e of (head, g) \<Rightarrow>
      if player head OR opponent head = 0 then
        (case read_board pyBoard pyPlayer (player head, opponent head, 0) of
           (pl, op, placed) \<Rightarrow>
             (BoardState (nextStates head) pl op 0 (worstBranch head) (state_x head) (state_y head),
              g\<lparr>placedTiles := placed\<rparr>))
      else
        (case find_move pyBoard head of
           None \<Rightarrow> (head, g)
         | Some nxt \<Rightarrow> (nxt, g\<lparr>placedTiles := placedTiles g + 1\<rparr>)))"

definition prepare_search :: "globals \<Rightarrow> globals" where
  "prepare_search g0 =
    (let g1 = g0\<lparr>placedTiles := placedTiles g0 + 1\<rparr>
     in g1\<lparr>maxDepth := choose_depth (placedTiles g1), visited := 0\<rparr>)"

definition search_turn :: "engine \<Rightarrow> error + engine" where
  "search_turn e =
    (case e of (head, g0) \<Rightarrow>
      (let g = prepare_search g0;
           rmd = maxDepth g
       in case (if maxDepth g = 5 then search_for_moves_paralell g head INT16_MIN INT16_MIN 0 1
                else if maxDepth g = 6 then search_for_moves_paralell g head INT16_MIN INT16_MIN 0 3
                else if maxDepth g = 7 then search_for_moves_paralell g head INT16_MIN INT16_MIN 0 3
                else if maxDepth g = 8 then search_for_moves_paralell g head INT16_MIN INT16_MIN 0 4
                else search_for_moves_serial g head INT16_MIN INT16_MIN 0) of
            Inl err \<Rightarrow> Inl err
          | Inr (head', g') \<Rightarrow>
              Inr (if rmd \<noteq> maxDepth g' then recalculate_move_values g' head' 0 else head', g')))"

definition best_moves :: "BoardState list \<Rightarrow> int \<times> nat list" where
  "best_moves cs =
    fold (\<lambda>i (best, bestMoves).
            if realVal (cs ! i) > best then (realVal (cs ! i), [i])
            else if realVal (cs ! i) = best then (best, bestMoves @ [i])
            else (best, bestMoves))
         [0..<length cs] (INT16_MIN, [])"

definition select_move :: "nat \<Rightarrow> BoardState \<Rightarrow> (int \<times> int) list \<times> BoardState" where
  "select_move rnd head =
    (let bestMoves = snd (best_moves (children head));
         idx = length bestMoves
     in if idx > 0 then
          (let next_state = children head ! (bestMoves ! (rnd mod idx))
           in ([(state_x next_state, state_y next_state)], next_state))
        else ([], head))"

definition revai_ai :: "board \<Rightarrow> int \<Rightarrow> nat \<Rightarrow> engine \<Rightarrow> error + ((int \<times> int) list \<times> engine)" where
  "revai_ai pyBoard pyPlayer rnd e =
    (case search_turn (sync_head pyBoard pyPlayer e) of
       Inl err \<Rightarrow> Inl err
     | Inr (head, g) \<Rightarrow>
         (case select_move rnd head of (moves, head') \<Rightarrow> Inr (moves, (head', g))))"

definition initial_head :: BoardState where
  "initial_head = BoardState None 0 0 INT16_MIN 0 0 0"

definition revai_reset :: "engine \<Rightarrow> engine" where
  "revai_reset e = (case e of (head, g) \<Rightarrow> (BoardState None 0 0 0 0 0 0, g\<lparr>placedTiles := 0\<rparr>))"


section \<open>Example positions and boards\<close>

text \<open>
  A board is written as its first rows, each row as its first cells; what is left out is
  empty. \<open>corner_board\<close> has a tile of player 1 in the corner cell (0, 0) and a tile of
  player 2 beside it.
\<close>

definition row_of :: "PyObject list \<Rightarrow> PyObject list" where
  "row_of xs = xs @ replicate (8 - length xs) PyTuple"

definition board_of :: "PyObject list list \<Rightarrow> board" where
  "board_of rows = map row_of (rows @ replicate (8 - length rows) [])"

definition corner_board :: board where
  "corner_board = board_of [[PyPlayer 1, PyPlayer 2]]"

definition tiles_on :: "board \<Rightarrow> nat" where
  "tiles_on pyBoard =
    length (filter (\<lambda>i. get_item pyBoard (i mod 8) (i div 8) \<noteq> PyTuple) [0..<64])"

lemmas board_eval = corner_board_def board_of_def row_of_def get_item_def
  upt_rec[of _ "numeral _"] upt_rec[of 0] nth_Cons' nth_append

lemma tiles_on_corner: "tiles_on corner_board = 2"
  by (simp add: tiles_on_def board_eval)


section \<open>The depth policy\<close>

text \<open>The table in the words of the specification, on the number of tiles on the board.\<close>

definition spec_depth :: "int \<Rightarrow> int" where
  "spec_depth tiles =
    (if tiles < 25 then 3 else if tiles < 30 then 5 else if tiles < 35 then 6
     else if tiles < 45 then 7 else 8)"

lemma read_board_count:
  "snd (snd (fold (\<lambda>index (pl, op, placed).
            case get_item pyBoard (index mod 8) (index div 8) of
              PyTuple \<Rightarrow> (pl, op, placed)
            | PyPlayer t \<Rightarrow>
                if t = pyPlayer then (pl, op OR push_bit index 1, placed + 1)
                else (pl OR push_bit index 1, op, placed + 1)) ns (a, b, n)))
   = n + int (length (filter (\<lambda>i. get_item pyBoard (i mod 8) (i div 8) \<noteq> PyTuple) ns))"
  by (induction ns arbitrary: a b n) (auto split: PyObject.splits)

lemma sync_head_count:
  assumes "player head OR opponent head = 0"
  shows "placedTiles (snd (sync_head pyBoard pyPlayer (head, g))) = int (tiles_on pyBoard)"
  using assms read_board_count[where pyBoard = pyBoard and pyPlayer = pyPlayer and ns = "[0..<64]"
      and a = "player head" and b = "opponent head" and n = 0]
  by (auto simp: sync_head_def read_board_def tiles_on_def split: prod.splits)

text \<open>
  C8, as the code has it. The depth of a turn is read from the counter \<^verbatim>\<open>placedTiles\<close>
  alone, after the counter has been incremented for the turn: 3 while the incremented
  counter is below 25, 5 below 30, 6 below 35, 7 below 50 and 8 from 50 on. On the first
  call the counter is the number of tiles on the board, so the depth is looked up at that
  number plus one.
\<close>

theorem depth_policy:
  "maxDepth (prepare_search g) =
     (if placedTiles g + 1 < 25 then 3 else if placedTiles g + 1 < 30 then 5
      else if placedTiles g + 1 < 35 then 6 else if placedTiles g + 1 < 50 then 7 else 8) \<and>
   (player head OR opponent head = 0 \<longrightarrow>
      placedTiles (snd (sync_head pyBoard pyPlayer (head, g))) = int (tiles_on pyBoard))"
  using sync_head_count[of head pyBoard pyPlayer g]
  by (simp add: prepare_search_def choose_depth_def Let_def)

theorem depth_policy_witness:
  "player initial_head OR opponent initial_head = 0 \<and>
   placedTiles (snd (sync_head corner_board 1
      (initial_head, \<lparr>placedTiles = 0, maxDepth = 0, visited = 0\<rparr>))) = 2 \<and>
   maxDepth (prepare_search \<lparr>placedTiles = 2, maxDepth = 0, visited = 0\<rparr>) = 3"
  using depth_policy[of "\<lparr>placedTiles = 2, maxDepth = 0, visited = 0\<rparr>"]
    depth_policy[of "\<lparr>placedTiles = 0, maxDepth = 0, visited = 0\<rparr>" initial_head corner_board 1]
  by (simp add: initial_head_def tiles_on_corner)

text \<open>
  With 45 tiles counted the code searches to depth 7 where the table of the specification
  has 8, and with 24 tiles counted it searches to depth 5 where the table has 3.
\<close>

theorem depth_policy_counterexample:
  "maxDepth (prepare_search \<lparr>placedTiles = 45, maxDepth = 0, visited = 0\<rparr>) = 7 \<and>
   spec_depth 45 = 8 \<and>
   maxDepth (prepare_search \<lparr>placedTiles = 24, maxDepth = 0, visited = 0\<rparr>) = 5 \<and>
   spec_depth 24 = 3"
  by (simp add: prepare_search_def choose_depth_def spec_depth_def)


section \<open>The precomputed masks\<close>

lemma m_left_guarded:
  assumes "on_board x y" "index = y * 8 + x" "x + 2 < 8"
  shows "tst (m_left (make_masks p opp)) index \<longleftrightarrow>
    is_empty p opp x y \<and> owns opp (x + 1) (y)"
proof -
  have ob: "on_board (x + 1) (y)" using assms by (auto simp: on_board_def)
  have idx: "nat index = cell_index x y" "1 + cell_index x y = cell_index (x + 1) (y)"
    using assms by (auto simp: cell_index_def on_board_def)
  have "tst (m_left (make_masks p opp)) index \<longleftrightarrow>
      bit (empty_cells p opp) (cell_index x y) \<and> bit opp (cell_index (x + 1) (y))"
    by (simp only: tst_bit make_masks_simps bit_and_iff bit_drop_bit_eq bit_push_bit_iff comp_def idx;
        simp add: idx)
  then show ?thesis
    using ob assms(1) by (simp add: bit_empty_cells is_empty_def owns_def)
qed

lemma m_right_guarded:
  assumes "on_board x y" "index = y * 8 + x" "2 \<le> x"
  shows "tst (m_right (make_masks p opp)) index \<longleftrightarrow>
    is_empty p opp x y \<and> owns opp (x - 1) (y)"
proof -
  have ob: "on_board (x - 1) (y)" using assms by (auto simp: on_board_def)
  have idx: "nat index = cell_index x y" "cell_index x y - 1 = cell_index (x - 1) (y)" "1 \<le> cell_index x y" "cell_index x y < 64"
    using assms by (auto simp: cell_index_def on_board_def)
  have "tst (m_right (make_masks p opp)) index \<longleftrightarrow>
      bit (empty_cells p opp) (cell_index x y) \<and> bit opp (cell_index (x - 1) (y))"
    by (simp only: tst_bit make_masks_simps bit_and_iff bit_drop_bit_eq bit_push_bit_iff comp_def idx;
        simp add: idx)
  then show ?thesis
    using ob assms(1) by (simp add: bit_empty_cells is_empty_def owns_def)
qed

lemma m_up_guarded:
  assumes "on_board x y" "index = y * 8 + x" "y + 2 < 8"
  shows "tst (m_up (make_masks p opp)) index \<longleftrightarrow>
    is_empty p opp x y \<and> owns opp (x) (y + 1)"
proof -
  have ob: "on_board (x) (y + 1)" using assms by (auto simp: on_board_def)
  have idx: "nat index = cell_index x y" "8 + cell_index x y = cell_index (x) (y + 1)"
    using assms by (auto simp: cell_index_def on_board_def)
  have "tst (m_up (make_masks p opp)) index \<longleftrightarrow>
      bit (empty_cells p opp) (cell_index x y) \<and> bit opp (cell_index (x) (y + 1))"
    by (simp only: tst_bit make_masks_simps bit_and_iff bit_drop_bit_eq bit_push_bit_iff comp_def idx;
        simp add: idx)
  then show ?thesis
    using ob assms(1) by (simp add: bit_empty_cells is_empty_def owns_def)
qed

lemma m_down_guarded:
  assumes "on_board x y" "index = y * 8 + x" "2 \<le> y"
  shows "tst (m_down (make_masks p opp)) index \<longleftrightarrow>
    is_empty p opp x y \<and> owns opp (x) (y - 1)"
proof -
  have ob: "on_board (x) (y - 1)" using assms by (auto simp: on_board_def)
  have idx: "nat index = cell_index x y" "cell_index x y - 8 = cell_index (x) (y - 1)" "8 \<le> cell_index x y" "cell_index x y < 64"
    using assms by (auto simp: cell_index_def on_board_def)
  have "tst (m_down (make_masks p opp)) index \<longleftrightarrow>
      bit (empty_cells p opp) (cell_index x y) \<and> bit opp (cell_index (x) (y - 1))"
    by (simp only: tst_bit make_masks_simps bit_and_iff bit_drop_bit_eq bit_push_bit_iff comp_def idx;
        simp add: idx)
  then show ?thesis
    using ob assms(1) by (simp add: bit_empty_cells is_empty_def owns_def)
qed

lemma m_upRight_guarded:
  assumes "on_board x y" "index = y * 8 + x" "y + 2 < 8 \<and> 2 \<le> x"
  shows "tst (m_upRight (make_masks p opp)) index \<longleftrightarrow>
    is_empty p opp x y \<and> owns opp (x - 1) (y + 1)"
proof -
  have ob: "on_board (x - 1) (y + 1)" using assms by (auto simp: on_board_def)
  have idx: "nat index = cell_index x y" "7 + cell_index x y = cell_index (x - 1) (y + 1)"
    using assms by (auto simp: cell_index_def on_board_def)
  have "tst (m_upRight (make_masks p opp)) index \<longleftrightarrow>
      bit (empty_cells p opp) (cell_index x y) \<and> bit opp (cell_index (x - 1) (y + 1))"
    by (simp only: tst_bit make_masks_simps bit_and_iff bit_drop_bit_eq bit_push_bit_iff comp_def idx;
        simp add: idx)
  then show ?thesis
    using ob assms(1) by (simp add: bit_empty_cells is_empty_def owns_def)
qed

lemma m_downLeft_guarded:
  assumes "on_board x y" "index = y * 8 + x" "2 \<le> y \<and> x + 2 < 8"
  shows "tst (m_downLeft (make_masks p opp)) index \<longleftrightarrow>
    is_empty p opp x y \<and> owns opp (x + 1) (y - 1)"
proof -
  have ob: "on_board (x + 1) (y - 1)" using assms by (auto simp: on_board_def)
  have idx: "nat index = cell_index x y" "cell_index x y - 7 = cell_index (x + 1) (y - 1)" "7 \<le> cell_index x y" "cell_index x y < 64"
    using assms by (auto simp: cell_index_def on_board_def)
  have "tst (m_downLeft (make_masks p opp)) index \<longleftrightarrow>
      bit (empty_cells p opp) (cell_index x y) \<and> bit opp (cell_index (x + 1) (y - 1))"
    by (simp only: tst_bit make_masks_simps bit_and_iff bit_drop_bit_eq bit_push_bit_iff comp_def idx;
        simp add: idx)
  then show ?thesis
    using ob assms(1) by (simp add: bit_empty_cells is_empty_def owns_def)
qed

lemma m_upLeft_guarded:
  assumes "on_board x y" "index = y * 8 + x" "y + 2 < 8 \<and> x + 2 < 8"
  shows "tst (m_upLeft (make_masks p opp)) index \<longleftrightarrow>
    is_empty p opp x y \<and> owns opp (x + 1) (y + 1)"
proof -
  have ob: "on_board (x + 1) (y + 1)" using assms by (auto simp: on_board_def)
  have idx: "nat index = cell_index x y" "9 + cell_index x y = cell_index (x + 1) (y + 1)"
    using assms by (auto simp: cell_index_def on_board_def)
  have "tst (m_upLeft (make_masks p opp)) index \<longleftrightarrow>
      bit (empty_cells p opp) (cell_index x y) \<and> bit opp (cell_index (x + 1) (y + 1))"
    by (simp only: tst_bit make_masks_simps bit_and_iff bit_drop_bit_eq bit_push_bit_iff comp_def idx;
        simp add: idx)
  then show ?thesis
    using ob assms(1) by (simp add: bit_empty_cells is_empty_def owns_def)
qed

lemma m_downRight_guarded:
  assumes "on_board x y" "index = y * 8 + x" "2 \<le> y \<and> 2 \<le> x"
  shows "tst (m_downRight (make_masks p opp)) index \<longleftrightarrow>
    is_empty p opp x y \<and> owns opp (x - 1) (y - 1)"
proof -
  have ob: "on_board (x - 1) (y - 1)" using assms by (auto simp: on_board_def)
  have idx: "nat index = cell_index x y" "cell_index x y - 9 = cell_index (x - 1) (y - 1)" "9 \<le> cell_index x y" "cell_index x y < 64"
    using assms by (auto simp: cell_index_def on_board_def)
  have "tst (m_downRight (make_masks p opp)) index \<longleftrightarrow>
      bit (empty_cells p opp) (cell_index x y) \<and> bit opp (cell_index (x - 1) (y - 1))"
    by (simp only: tst_bit make_masks_simps bit_and_iff bit_drop_bit_eq bit_push_bit_iff comp_def idx;
        simp add: idx)
  then show ?thesis
    using ob assms(1) by (simp add: bit_empty_cells is_empty_def owns_def)
qed

text \<open>
  The specification's reading for the mask \<^verbatim>\<open>right\<close>: no bit in the column \<open>x = 0\<close>, whose
  cells have no neighbour at \<open>x - 1\<close>.
\<close>

definition edge_free_right :: "64 word \<Rightarrow> bool" where
  "edge_free_right w \<longleftrightarrow> (\<forall>n < 64. bit w n \<longrightarrow> n mod 8 \<noteq> 0)"

text \<open>
  C9, as the code has it. The eight masks are plain shifts of the opponent's bitboard
  intersected with the empty cells; nothing is removed at the edges (the comments of the
  source mark these edges \<^verbatim>\<open>INVALID\<close>). What keeps a wrapped bit from being used is the guard
  on \<open>x\<close> and \<open>y\<close> under which each direction block reads its mask: under that guard the
  mask bit of a cell says that the cell is empty and that its neighbour in the direction,
  a cell of the board, holds an opponent tile.
\<close>

theorem masks_guarded:
  assumes "on_board x y" "index = y * 8 + x"
  shows
   "(x + 2 < 8 \<longrightarrow>
      (tst (m_left (make_masks p opp)) index \<longleftrightarrow> is_empty p opp x y \<and> owns opp (x + 1) y)) \<and>
    (2 \<le> x \<longrightarrow>
      (tst (m_right (make_masks p opp)) index \<longleftrightarrow> is_empty p opp x y \<and> owns opp (x - 1) y)) \<and>
    (y + 2 < 8 \<longrightarrow>
      (tst (m_up (make_masks p opp)) index \<longleftrightarrow> is_empty p opp x y \<and> owns opp x (y + 1))) \<and>
    (2 \<le> y \<longrightarrow>
      (tst (m_down (make_masks p opp)) index \<longleftrightarrow> is_empty p opp x y \<and> owns opp x (y - 1))) \<and>
    (y + 2 < 8 \<and> 2 \<le> x \<longrightarrow>
      (tst (m_upRight (make_masks p opp)) index \<longleftrightarrow>
         is_empty p opp x y \<and> owns opp (x - 1) (y + 1))) \<and>
    (2 \<le> y \<and> x + 2 < 8 \<longrightarrow>
      (tst (m_downLeft (make_masks p opp)) index \<longleftrightarrow>
         is_empty p opp x y \<and> owns opp (x + 1) (y - 1))) \<and>
    (y + 2 < 8 \<and> x + 2 < 8 \<longrightarrow>
      (tst (m_upLeft (make_masks p opp)) index \<longleftrightarrow>
         is_empty p opp x y \<and> owns opp (x + 1) (y + 1))) \<and>
    (2 \<le> y \<and> 2 \<le> x \<longrightarrow>
      (tst (m_downRight (make_masks p opp)) index \<longleftrightarrow>
         is_empty p opp x y \<and> owns opp (x - 1) (y - 1)))"
  using m_left_guarded[OF assms] m_right_guarded[OF assms] m_up_guarded[OF assms]
    m_down_guarded[OF assms] m_upRight_guarded[OF assms] m_downLeft_guarded[OF assms]
    m_upLeft_guarded[OF assms] m_downRight_guarded[OF assms]
  by (intro conjI impI) blast+

theorem masks_guarded_witness:
  "on_board 2 0 \<and> (2 :: int) = 0 * 8 + 2 \<and> (2 :: int) \<le> 2 \<and>
   tst (m_right (make_masks 0 2)) 2 \<and> is_empty 0 2 2 0 \<and> owns 2 1 0"
  using masks_guarded[of 2 0 2 0 2]
  by (simp add: on_board_def is_empty_def owns_def cell_index_def)

text \<open>
  One opponent tile in the cell (7, 0), bit 7: the mask \<^verbatim>\<open>right\<close> has bit 8, the cell (0, 1)
  of the next row, which has no neighbour at \<open>x - 1\<close>.
\<close>

theorem masks_wrap_counterexample:
  "bit (m_right (make_masks 0 128)) 8 \<and> \<not> edge_free_right (m_right (make_masks 0 128)) \<and>
   \<not> on_board (0 - 1) 1 \<and> cell_index 0 1 = 8"
proof -
  have b: "bit (m_right (make_masks 0 128)) 8"
    by (simp add: make_masks_def bit_simps)
  then have "\<not> edge_free_right (m_right (make_masks 0 128))"
    unfolding edge_free_right_def by (intro notI) (drule spec[of _ 8], simp)
  then show ?thesis using b by (simp add: on_board_def cell_index_def)
qed


section \<open>The bottom-up pass\<close>

lemma int16_t_range: "- 32768 \<le> int16_t v" "int16_t v \<le> 32767"
  by (simp_all add: int16_t_def)

lemma int16_t_id: "- 32768 \<le> v \<Longrightarrow> v \<le> 32767 \<Longrightarrow> int16_t v = v"
  by (simp add: int16_t_def)

lemma realVal_ge: "INT16_MIN \<le> realVal c"
  using int16_t_range(1) by (simp add: realVal_def INT16_MIN_def)

lemma fold_best:
  "fold (\<lambda>c mx. if f c > mx then f c else mx) cs (a :: int) = Max (insert a (f ` set cs))"
proof (induction cs arbitrary: a)
  case Nil
  then show ?case by simp
next
  case (Cons c cs)
  have "(if a < f c then f c else a) = max (f c) a" by (simp add: max_def)
  then have "fold (\<lambda>c mx. if f c > mx then f c else mx) (c # cs) a
      = Max (insert (max (f c) a) (f ` set cs))"
    using Cons by simp
  also have "\<dots> = Max (insert a (f ` set (c # cs)))"
  proof (cases "cs = []")
    case True
    then show ?thesis by (simp add: max.commute)
  next
    case False
    have "Max (insert (max (f c) a) (f ` set cs)) = max (max (f c) a) (Max (f ` set cs))"
      using False by simp
    also have "\<dots> = max a (max (f c) (Max (f ` set cs)))"
      by (simp add: max.commute max.left_commute)
    also have "\<dots> = Max (insert a (insert (f c) (f ` set cs)))"
      using False by simp
    finally show ?thesis by simp
  qed
  finally show ?case .
qed

lemma fold_best_realVal:
  assumes "cs \<noteq> []"
  shows "fold (\<lambda>c mx. if realVal c > mx then realVal c else mx) cs INT16_MIN
    = Max (realVal ` set cs)"
proof -
  have "Max (insert INT16_MIN (realVal ` set cs)) = max INT16_MIN (Max (realVal ` set cs))"
    using assms by simp
  moreover have "INT16_MIN \<le> Max (realVal ` set cs)"
  proof -
    obtain c where c: "c \<in> set cs" using assms by (cases cs) auto
    have "INT16_MIN \<le> realVal c" by (rule realVal_ge)
    also have "\<dots> \<le> Max (realVal ` set cs)" using c by simp
    finally show ?thesis .
  qed
  ultimately show ?thesis by (simp add: fold_best max_def)
qed

lemma lenStates_children: "lenStates state > 0 \<longleftrightarrow> children state \<noteq> []"
  by (cases "nextStates state") (auto simp: lenStates_def children_def)

lemma children_simps [simp]:
  "children (set_worstBranch w s) = children s"
  "children (set_val v s) = children s"
  "children (set_nextStates ns s) = (case ns of None \<Rightarrow> [] | Some cs \<Rightarrow> cs)"
  by (simp_all add: children_def set_worstBranch_def set_val_def set_nextStates_def)

lemma field_simps_BoardState [simp]:
  "worstBranch (set_worstBranch w s) = w"
  "val (set_worstBranch w s) = val s"
  "player (set_worstBranch w s) = player s"
  "opponent (set_worstBranch w s) = opponent s"
  "state_x (set_worstBranch w s) = state_x s"
  "state_y (set_worstBranch w s) = state_y s"
  "nextStates (set_worstBranch w s) = nextStates s"
  "worstBranch (set_val v s) = worstBranch s"
  "val (set_val v s) = v"
  "player (set_val v s) = player s"
  "opponent (set_val v s) = opponent s"
  "state_x (set_val v s) = state_x s"
  "state_y (set_val v s) = state_y s"
  "nextStates (set_val v s) = nextStates s"
  "worstBranch (set_nextStates ns s) = worstBranch s"
  "val (set_nextStates ns s) = val s"
  "player (set_nextStates ns s) = player s"
  "opponent (set_nextStates ns s) = opponent s"
  "state_x (set_nextStates ns s) = state_x s"
  "state_y (set_nextStates ns s) = state_y s"
  "nextStates (set_nextStates ns s) = ns"
  by (simp_all add: set_worstBranch_def set_val_def set_nextStates_def)

lemma recalculate_inner:
  assumes "lenStates state > 0" "int depth < maxDepth g"
  shows "recalculate_move_values g state depth =
    set_worstBranch
      (Max (realVal ` set (map (\<lambda>c. recalculate_move_values g c (uint8_t (depth + 1)))
          (children state))))
      (set_nextStates
        (Some (map (\<lambda>c. recalculate_move_values g c (uint8_t (depth + 1))) (children state)))
        state)"
proof -
  have ne: "map (\<lambda>c. recalculate_move_values g c (uint8_t (depth + 1))) (children state) \<noteq> []"
    using assms(1) by (simp add: lenStates_children)
  show ?thesis
    by (subst recalculate_move_values.simps)
       (simp only: assms if_True Let_def fold_best_realVal[OF ne])
qed

lemma recalculate_cut:
  assumes "lenStates state > 0" "\<not> int depth < maxDepth g"
  shows "recalculate_move_values g state depth = state"
  by (subst recalculate_move_values.simps) (simp only: assms if_True if_False)

lemma recalculate_leaf:
  assumes "\<not> lenStates state > 0"
  shows "recalculate_move_values g state depth = game_end state"
  by (subst recalculate_move_values.simps) (simp only: assms if_False)

lemma game_end_fields:
  "val (game_end s) = 0"
  "worstBranch (game_end s) =
     (if popcnt64 (player s) < popcnt64 (opponent s) then 4095
      else if popcnt64 (player s) > popcnt64 (opponent s) then - 4096 else - 10)"
  "nextStates (game_end s) = nextStates s"
  "player (game_end s) = player s"
  "opponent (game_end s) = opponent s"
  "state_x (game_end s) = state_x s"
  "state_y (game_end s) = state_y s"
  by (simp_all add: game_end_def INT16_MAX_def INT16_MIN_def)

text \<open>
  Values as they occur in play: a move gains between -231 and 57, and a backed-up value
  starts from 0 or from a game-end score.
\<close>

fun tame :: "BoardState \<Rightarrow> bool" where
  "tame (BoardState ns p opp v w x y) \<longleftrightarrow>
    \<bar>v\<bar> \<le> 255 \<and> \<bar>w\<bar> \<le> 8192 \<and>
    (case ns of None \<Rightarrow> True | Some cs \<Rightarrow> list_all tame cs)"

lemma tame_fields: "tame s \<Longrightarrow> \<bar>val s\<bar> \<le> 255 \<and> \<bar>worstBranch s\<bar> \<le> 8192"
  by (cases s) simp

lemma tame_children: "tame s \<Longrightarrow> c \<in> set (children s) \<Longrightarrow> tame c"
  by (cases s) (auto simp: children_def list_all_iff split: option.splits)

lemma Max_abs_le:
  fixes f :: "'a \<Rightarrow> int"
  assumes "finite A" "A \<noteq> {}" "\<And>a. a \<in> A \<Longrightarrow> \<bar>f a\<bar> \<le> b"
  shows "\<bar>Max (f ` A)\<bar> \<le> b"
proof -
  have "Max (f ` A) \<in> f ` A" using assms(1,2) by (intro Max_in) auto
  then show ?thesis using assms(3) by auto
qed

lemma recalculate_bounds:
  "tame state \<Longrightarrow> maxDepth g \<le> 64 \<Longrightarrow>
    \<bar>val (recalculate_move_values g state depth)\<bar> \<le> 255 \<and>
    \<bar>worstBranch (recalculate_move_values g state depth)\<bar>
      \<le> 8192 + 255 * (if int depth < maxDepth g then maxDepth g - int depth else 0)"
proof (induction g state depth rule: recalculate_move_values.induct)
  case (1 g state depth)
  show ?case
  proof (cases "lenStates state > 0")
    case False
    then show ?thesis
      by (simp add: recalculate_leaf game_end_fields)
  next
    case len: True
    show ?thesis
    proof (cases "int depth < maxDepth g")
      case False
      then show ?thesis using len tame_fields[OF "1.prems"(1)] by (simp add: recalculate_cut)
    next
      case True
      let ?d = "uint8_t (depth + 1)"
      let ?cs = "map (\<lambda>c. recalculate_move_values g c ?d) (children state)"
      have d: "int ?d = int depth + 1" using True "1.prems"(2) by (simp add: uint8_t_def)
      have r: "recalculate_move_values g state depth =
          set_worstBranch (Max (realVal ` set ?cs)) (set_nextStates (Some ?cs) state)"
        by (rule recalculate_inner[OF len True])
      have b: "\<bar>val c - worstBranch c\<bar> \<le> 8192 + 255 * (maxDepth g - int depth)"
        if "c \<in> set ?cs" for c
      proof -
        from that obtain c0 where c0: "c0 \<in> set (children state)"
            "c = recalculate_move_values g c0 ?d"
          unfolding set_map by (rule imageE)
        have ih: "\<bar>val c\<bar> \<le> 255 \<and> \<bar>worstBranch c\<bar>
            \<le> 8192 + 255 * (if int ?d < maxDepth g then maxDepth g - int ?d else 0)"
          unfolding c0(2)
          by (rule "1.IH"[OF len True c0(1) tame_children[OF "1.prems"(1) c0(1)] "1.prems"(2)])
        show ?thesis using ih True unfolding d by (auto split: if_splits)
      qed
      have rv: "realVal c = val c - worstBranch c" if "c \<in> set ?cs" for c
        using b[OF that] True "1.prems"(2) by (simp add: realVal_def int16_t_id)
      have ne: "set ?cs \<noteq> {}" using len by (simp add: lenStates_children)
      have "\<bar>Max (realVal ` set ?cs)\<bar> \<le> 8192 + 255 * (maxDepth g - int depth)"
        using b rv by (intro Max_abs_le[OF _ ne]) auto
      then show ?thesis
        using True tame_fields[OF "1.prems"(1)] by (subst r, subst r) simp
    qed
  qed
qed

lemma recalculate_in_range:
  assumes "tame state" "maxDepth g \<le> 64" "c \<in> set (children state)"
  shows "- 32768 \<le> val (recalculate_move_values g c d) - worstBranch (recalculate_move_values g c d)"
    and "val (recalculate_move_values g c d) - worstBranch (recalculate_move_values g c d) \<le> 32767"
proof -
  have "\<bar>val (recalculate_move_values g c d)\<bar> \<le> 255 \<and>
    \<bar>worstBranch (recalculate_move_values g c d)\<bar>
      \<le> 8192 + 255 * (if int d < maxDepth g then maxDepth g - int d else 0)"
    by (rule recalculate_bounds[OF tame_children[OF assms(1,3)] assms(2)])
  then have "\<bar>val (recalculate_move_values g c d)\<bar> \<le> 255 \<and>
    \<bar>worstBranch (recalculate_move_values g c d)\<bar> \<le> 8192 + 255 * 64"
    using assms(2) by (auto split: if_splits)
  then show "- 32768 \<le> val (recalculate_move_values g c d) - worstBranch (recalculate_move_values g c d)"
    and "val (recalculate_move_values g c d) - worstBranch (recalculate_move_values g c d) \<le> 32767"
    by auto
qed

text \<open>
  C4, as the code has it. \<open>recalculate_move_values\<close> on a node that has children and whose
  depth is below \<^verbatim>\<open>maxDepth\<close> leaves the node with its \<open>worstBranch\<close> equal to the maximum,
  over its children as the pass leaves them, of \<open>realVal\<close>, which is \<^verbatim>\<open>value - worstBranch\<close>
  stored in 16 bits; the children are the old ones after the same pass one level down,
  and nothing else of the node changes. That maximum is the maximum of the differences
  \<^verbatim>\<open>value - worstBranch\<close> themselves whenever every child's difference fits 16 bits, and
  it does for every tree with values as they occur in play (\<open>tame\<close>) and a depth limit of
  at most 64. A node with children at or beyond the limit is left as it is, and a node
  without children gets \<^verbatim>\<open>value\<close> 0 and the game-end score for \<open>worstBranch\<close>.
\<close>

theorem negamax_identity:
  "(lenStates state > 0 \<and> int depth < maxDepth g \<longrightarrow>
      worstBranch (recalculate_move_values g state depth) =
        Max (realVal ` set (children (recalculate_move_values g state depth))) \<and>
      children (recalculate_move_values g state depth) =
        map (\<lambda>c. recalculate_move_values g c (uint8_t (depth + 1))) (children state) \<and>
      val (recalculate_move_values g state depth) = val state \<and>
      player (recalculate_move_values g state depth) = player state \<and>
      opponent (recalculate_move_values g state depth) = opponent state \<and>
      state_x (recalculate_move_values g state depth) = state_x state \<and>
      state_y (recalculate_move_values g state depth) = state_y state \<and>
      ((\<forall>c \<in> set (children (recalculate_move_values g state depth)).
          - 32768 \<le> val c - worstBranch c \<and> val c - worstBranch c \<le> 32767) \<longrightarrow>
       worstBranch (recalculate_move_values g state depth) =
         Max ((\<lambda>c. val c - worstBranch c) `
           set (children (recalculate_move_values g state depth)))) \<and>
      (tame state \<and> maxDepth g \<le> 64 \<longrightarrow>
       worstBranch (recalculate_move_values g state depth) =
         Max ((\<lambda>c. val c - worstBranch c) `
           set (children (recalculate_move_values g state depth))))) \<and>
   (lenStates state > 0 \<and> \<not> int depth < maxDepth g \<longrightarrow>
      recalculate_move_values g state depth = state) \<and>
   (\<not> lenStates state > 0 \<longrightarrow>
      recalculate_move_values g state depth = game_end state \<and>
      val (recalculate_move_values g state depth) = 0 \<and>
      worstBranch (recalculate_move_values g state depth) =
        (if popcnt64 (player state) < popcnt64 (opponent state) then 4095
         else if popcnt64 (player state) > popcnt64 (opponent state) then - 4096 else - 10) \<and>
      nextStates (recalculate_move_values g state depth) = nextStates state \<and>
      player (recalculate_move_values g state depth) = player state \<and>
      opponent (recalculate_move_values g state depth) = opponent state \<and>
      state_x (recalculate_move_values g state depth) = state_x state \<and>
      state_y (recalculate_move_values g state depth) = state_y state)"
proof (intro conjI impI; (elim conjE)?)
  let ?r = "recalculate_move_values g state depth"
  let ?cs = "map (\<lambda>c. recalculate_move_values g c (uint8_t (depth + 1))) (children state)"
  {
    assume a: "lenStates state > 0" "int depth < maxDepth g"
    have r: "?r = set_worstBranch (Max (realVal ` set ?cs)) (set_nextStates (Some ?cs) state)"
      by (rule recalculate_inner[OF a])
    show c: "children ?r = ?cs" by (subst r) simp
    show w: "worstBranch ?r = Max (realVal ` set (children ?r))"
      unfolding c by (subst r) simp
    show "val ?r = val state" "player ?r = player state" "opponent ?r = opponent state"
      "state_x ?r = state_x state" "state_y ?r = state_y state"
      by (subst r, simp)+
    have e: "realVal ` set (children ?r) = (\<lambda>c. val c - worstBranch c) ` set (children ?r)"
      if "\<forall>c \<in> set (children ?r). - 32768 \<le> val c - worstBranch c \<and> val c - worstBranch c \<le> 32767"
      using that by (intro image_cong refl) (simp add: realVal_def int16_t_id)
    {
      assume "\<forall>c \<in> set (children ?r). - 32768 \<le> val c - worstBranch c \<and> val c - worstBranch c \<le> 32767"
      then show "worstBranch ?r = Max ((\<lambda>c. val c - worstBranch c) ` set (children ?r))"
        using e w by simp
    }
    {
      assume t: "tame state" "maxDepth g \<le> 64"
      have "\<forall>c \<in> set (children ?r). - 32768 \<le> val c - worstBranch c \<and> val c - worstBranch c \<le> 32767"
        unfolding c using recalculate_in_range[OF t] by auto
      then show "worstBranch ?r = Max ((\<lambda>c. val c - worstBranch c) ` set (children ?r))"
        using e w by simp
    }
  }
  {
    assume "lenStates state > 0" "\<not> int depth < maxDepth g"
    then show "?r = state" by (rule recalculate_cut)
  }
  {
    assume a: "\<not> lenStates state > 0"
    show "?r = game_end state" by (rule recalculate_leaf[OF a])
    show "val ?r = 0" "nextStates ?r = nextStates state" "player ?r = player state"
      "opponent ?r = opponent state" "state_x ?r = state_x state" "state_y ?r = state_y state"
      by (simp_all add: recalculate_leaf[OF a] game_end_fields)
    show "worstBranch ?r =
        (if popcnt64 (player state) < popcnt64 (opponent state) then 4095
         else if popcnt64 (player state) > popcnt64 (opponent state) then - 4096 else - 10)"
      by (simp only: recalculate_leaf[OF a] game_end_fields)
  }
qed

text \<open>A node with two children that both end the game.\<close>

definition small_tree :: BoardState where
  "small_tree = BoardState (Some [BoardState (Some []) 2 1 5 0 1 0,
                                  BoardState (Some []) 3 0 7 0 2 0]) 1 2 0 0 0 0"

lemma popcnt64_simps:
  "popcnt64 0 = 0" "popcnt64 1 = 1" "popcnt64 2 = 1" "popcnt64 3 = 2"
  by (simp_all add: popcnt64_def upt_rec[of _ "numeral _"] upt_rec[of 0] bit_numeral_simps)

lemmas tree_eval = recalculate_move_values.simps lenStates_def children_def
  game_end_def popcnt64_simps set_worstBranch_def set_val_def set_nextStates_def
  realVal_def int16_t_def INT16_MIN_def INT16_MAX_def uint8_t_def Let_def

lemma recalculate_small_tree:
  "recalculate_move_values \<lparr>placedTiles = 0, maxDepth = 1, visited = 0\<rparr> small_tree 0 =
    BoardState (Some [BoardState (Some []) 2 1 0 (- 10) 1 0,
                      BoardState (Some []) 3 0 0 (- 4096) 2 0]) 1 2 0 4096 0 0"
  by (simp add: small_tree_def tree_eval)

theorem negamax_identity_witness:
  "lenStates small_tree > 0 \<and>
   int 0 < maxDepth \<lparr>placedTiles = 0, maxDepth = 1, visited = 0\<rparr> \<and>
   tame small_tree \<and> maxDepth \<lparr>placedTiles = 0, maxDepth = 1, visited = 0\<rparr> \<le> 64 \<and>
   worstBranch (recalculate_move_values \<lparr>placedTiles = 0, maxDepth = 1, visited = 0\<rparr> small_tree 0)
     = 4096 \<and>
   Max ((\<lambda>c. val c - worstBranch c) `
     set (children (recalculate_move_values \<lparr>placedTiles = 0, maxDepth = 1, visited = 0\<rparr> small_tree 0)))
     = 4096 \<and>
   \<not> lenStates (BoardState (Some []) 3 0 7 0 2 0) > 0 \<and>
   recalculate_move_values \<lparr>placedTiles = 0, maxDepth = 1, visited = 0\<rparr>
     (BoardState (Some []) 3 0 7 0 2 0) 1 = BoardState (Some []) 3 0 0 (- 4096) 2 0 \<and>
   \<not> int 1 < maxDepth \<lparr>placedTiles = 0, maxDepth = 1, visited = 0\<rparr> \<and>
   recalculate_move_values \<lparr>placedTiles = 0, maxDepth = 1, visited = 0\<rparr> small_tree 1 = small_tree"
  using negamax_identity[of small_tree 0 "\<lparr>placedTiles = 0, maxDepth = 1, visited = 0\<rparr>"]
    negamax_identity[of "BoardState (Some []) 3 0 7 0 2 0" 1
      "\<lparr>placedTiles = 0, maxDepth = 1, visited = 0\<rparr>"]
    negamax_identity[of small_tree 1 "\<lparr>placedTiles = 0, maxDepth = 1, visited = 0\<rparr>"]
  by (simp add: recalculate_small_tree children_def)
     (simp add: small_tree_def lenStates_def game_end_def popcnt64_simps set_worstBranch_def
        set_val_def INT16_MIN_def)

text \<open>
  The equation on the plain differences fails where a difference leaves the 16-bit range.
  The only child of \<open>steep_tree\<close> has \<^verbatim>\<open>value\<close> 32767 and \<^verbatim>\<open>worstBranch\<close> -1 and sits at the
  depth limit, so the pass leaves it alone; its difference is 32768, which line 543 stores
  as -32768, and that is what the root gets.
\<close>

definition steep_tree :: BoardState where
  "steep_tree = BoardState (Some [BoardState (Some [BoardState None 1 2 0 0 0 0])
                                    2 1 32767 (- 1) 1 0]) 1 2 0 0 0 0"

theorem negamax_overflow_counterexample:
  "lenStates steep_tree > 0 \<and>
   int 0 < maxDepth \<lparr>placedTiles = 0, maxDepth = 1, visited = 0\<rparr> \<and>
   worstBranch (recalculate_move_values \<lparr>placedTiles = 0, maxDepth = 1, visited = 0\<rparr> steep_tree 0)
     = - 32768 \<and>
   Max ((\<lambda>c. val c - worstBranch c) `
     set (children (recalculate_move_values \<lparr>placedTiles = 0, maxDepth = 1, visited = 0\<rparr> steep_tree 0)))
     = 32768"
  by (simp add: steep_tree_def tree_eval)


section \<open>The generator on concrete positions\<close>

text \<open>
  The facts that unfold a call of \<open>generate_child_moves\<close> on a concrete position, and four
  positions: the one read from \<open>corner_board\<close>, the starting position with the four centre
  tiles, and a crowded position, whose side to move has 33 legal moves.
\<close>

lemmas gen_eval = generate_child_moves_def y_loop.simps x_loop.simps cell_step_def cell_blocks_def
  left_block_def right_block_def up_block_def down_block_def up_right_block_def
  down_left_block_def up_left_block_def down_right_block_def make_masks_def tst_bit
  BOARD_SIZE_def init_entry_def apply_flip_def
  left_scan.simps right_scan.simps up_scan.simps down_scan.simps
  up_right_scan.simps down_left_scan.simps up_left_scan.simps down_right_scan.simps
  mask_left_def mask_right_def mask_up_def mask_down_def
  mask_up_right_def mask_down_left_def mask_up_left_def mask_down_right_def
  int16_t_def eval_left_def eval_right_def eval_up_def eval_down_def
  eval_up_right_def eval_down_left_def eval_up_left_def eval_down_right_def
  BOARD_VALUES_def Let_def

definition start_position :: BoardState where
  "start_position = BoardState None 0x1008000000 0x0810000000 0 0 0 0"

definition crowded_33 :: BoardState where
  "crowded_33 = BoardState None 0x4216404012507200 0x8c08102064270110 0 0 0 0"

lemma gen_corner:
  "generate_child_moves (BoardState None 2 1 0 0 0 0)
    = Inr (BoardState (Some [BoardState None 7 0 3 0 2 0]) 2 1 0 0 0 0)"
  by (simp add: gen_eval)

lemma gen_start:
  "generate_child_moves start_position =
    Inr (BoardState (Some [BoardState None 34762915840 68719476736 2 0 3 2,
                           BoardState None 34829500416 68719476736 2 0 2 3,
                           BoardState None 240786604032 134217728 2 0 5 4,
                           BoardState None 17695533694976 134217728 2 0 4 5])
           0x1008000000 0x0810000000 0 0 0 0)"
  by (simp add: start_position_def gen_eval)

lemma gen_crowded_33: "generate_child_moves crowded_33 = Inl OutOfBounds"
  by (simp add: crowded_33_def gen_eval)



section \<open>Legal moves and their children\<close>

lemma generated_children:
  assumes disj: "player s AND opponent s = 0" and c: "c \<in> set (gen_upto (opponent s) (player s) 64)"
  shows "legal_move (opponent s) (player s) (state_x c) (state_y c)"
    and "move_result (opponent s) (player s) (state_x c) (state_y c) c"
    and "nextStates c = None" and "worstBranch c = 0"
    and "player c AND opponent c = 0"
proof -
  have d: "opponent s AND player s = 0" using disj by (simp add: and.commute)
  obtain n where n: "n < 64" "legal_at (opponent s) (player s) n"
      "c = child_at (opponent s) (player s) n"
    using c by (rule gen_upto_set)
  show l: "legal_move (opponent s) (player s) (state_x c) (state_y c)"
    using n(2) by (simp add: n(3) child_at_fields legal_at_def)
  show r: "move_result (opponent s) (player s) (state_x c) (state_y c) c"
    using child_at_result[OF n(1) d n(2)] by (simp add: n(3) child_at_fields)
  show "nextStates c = None" "worstBranch c = 0" by (simp_all add: n(3) child_at_fields)
  show "player c AND opponent c = 0" by (rule move_result_disjoint[OF d l r])
qed

lemma legal_moves_length:
  "length (legal_moves p opp) = length (gen_upto p opp 64)"
  using gen_upto_coords[of p opp, symmetric] by simp

text \<open>
  C1. For a position whose two bitboards are disjoint and that has at most 32 legal moves,
  \<open>generate_child_moves\<close> returns the position with its children set, one child per legal
  move of the side to move in row order; a move is legal when its cell is empty and in one
  of the eight directions a run of one or more opponent tiles starts beside it and ends at
  a tile of the mover (\<open>legal_move\<close>). Each child holds, as \<open>player\<close>, the mover's tiles, the
  placed cell and every tile of every such run, and as \<open>opponent\<close> the other side's tiles
  without those (\<open>move_result\<close>); it has no children of its own and \<open>worstBranch\<close> 0. With
  more than 32 legal moves the function writes outside the array it allocated. On the
  starting position it returns four moves, each taking exactly one tile from the other
  side.
\<close>

theorem generate_child_moves_legal:
  "(player s AND opponent s = 0 \<and> length (legal_moves (opponent s) (player s)) \<le> 32 \<longrightarrow>
     (\<exists>cs. generate_child_moves s =
         Inr (BoardState (Some cs) (player s) (opponent s) (val s) (worstBranch s)
                (state_x s) (state_y s)) \<and>
       map (\<lambda>c. (state_x c, state_y c)) cs = legal_moves (opponent s) (player s) \<and>
       (\<forall>c \<in> set cs. move_result (opponent s) (player s) (state_x c) (state_y c) c \<and>
          nextStates c = None \<and> worstBranch c = 0))) \<and>
   (player s AND opponent s = 0 \<and> 32 < length (legal_moves (opponent s) (player s)) \<longrightarrow>
     generate_child_moves s = Inl OutOfBounds) \<and>
   generate_child_moves start_position =
     Inr (BoardState (Some [BoardState None 34762915840 68719476736 2 0 3 2,
                            BoardState None 34829500416 68719476736 2 0 2 3,
                            BoardState None 240786604032 134217728 2 0 5 4,
                            BoardState None 17695533694976 134217728 2 0 4 5])
            (player start_position) (opponent start_position) 0 0 0 0) \<and>
   popcnt64 (player start_position AND 34762915840) = 1 \<and>
   popcnt64 (player start_position AND 34829500416) = 1 \<and>
   popcnt64 (player start_position AND 240786604032) = 1 \<and>
   popcnt64 (player start_position AND 17695533694976) = 1"
proof (intro conjI impI)
  assume a: "player s AND opponent s = 0 \<and> length (legal_moves (opponent s) (player s)) \<le> 32"
  let ?cs = "gen_upto (opponent s) (player s) 64"
  have "generate_child_moves s =
      Inr (BoardState (Some ?cs) (player s) (opponent s) (val s) (worstBranch s)
        (state_x s) (state_y s))"
    using a generate_child_moves_run[of s] by (simp add: legal_moves_length)
  moreover have "map (\<lambda>c. (state_x c, state_y c)) ?cs = legal_moves (opponent s) (player s)"
    by (rule gen_upto_coords)
  moreover have "\<forall>c \<in> set ?cs. move_result (opponent s) (player s) (state_x c) (state_y c) c \<and>
      nextStates c = None \<and> worstBranch c = 0"
    using generated_children(2,3,4)[of s] a by blast
  ultimately show "\<exists>cs. generate_child_moves s =
         Inr (BoardState (Some cs) (player s) (opponent s) (val s) (worstBranch s)
                (state_x s) (state_y s)) \<and>
       map (\<lambda>c. (state_x c, state_y c)) cs = legal_moves (opponent s) (player s) \<and>
       (\<forall>c \<in> set cs. move_result (opponent s) (player s) (state_x c) (state_y c) c \<and>
          nextStates c = None \<and> worstBranch c = 0)"
    by blast
next
  assume "player s AND opponent s = 0 \<and> 32 < length (legal_moves (opponent s) (player s))"
  then show "generate_child_moves s = Inl OutOfBounds"
    using generate_child_moves_run[of s] by (simp add: legal_moves_length)
next
  show "generate_child_moves start_position =
     Inr (BoardState (Some [BoardState None 34762915840 68719476736 2 0 3 2,
                            BoardState None 34829500416 68719476736 2 0 2 3,
                            BoardState None 240786604032 134217728 2 0 5 4,
                            BoardState None 17695533694976 134217728 2 0 4 5])
            (player start_position) (opponent start_position) 0 0 0 0)"
    using gen_start by (simp add: start_position_def)
qed (simp_all add: start_position_def popcnt64_def upt_rec[of _ "numeral _"] upt_rec[of 0] bit_simps)

lemma start_legal_moves:
  "legal_moves (opponent start_position) (player start_position) = [(3, 2), (2, 3), (5, 4), (4, 5)]"
proof -
  have d: "player start_position AND opponent start_position = 0"
    by (simp add: start_position_def)
  have "gen_upto (opponent start_position) (player start_position) 64 =
      [BoardState None 34762915840 68719476736 2 0 3 2,
       BoardState None 34829500416 68719476736 2 0 2 3,
       BoardState None 240786604032 134217728 2 0 5 4,
       BoardState None 17695533694976 134217728 2 0 4 5]"
    using generate_child_moves_run[OF d] gen_start by (simp split: if_splits)
  then show ?thesis
    using gen_upto_coords[of "opponent start_position" "player start_position"] by simp
qed

theorem generate_child_moves_legal_witness:
  "player start_position AND opponent start_position = 0 \<and>
   length (legal_moves (opponent start_position) (player start_position)) \<le> 32 \<and>
   (\<exists>cs. generate_child_moves start_position =
       Inr (BoardState (Some cs) (player start_position) (opponent start_position) 0 0 0 0) \<and>
     map (\<lambda>c. (state_x c, state_y c)) cs = [(3, 2), (2, 3), (5, 4), (4, 5)]) \<and>
   player crowded_33 AND opponent crowded_33 = 0 \<and>
   32 < length (legal_moves (opponent crowded_33) (player crowded_33))"
proof -
  have d: "player crowded_33 AND opponent crowded_33 = 0" by (simp add: crowded_33_def)
  have "32 < length (legal_moves (opponent crowded_33) (player crowded_33))"
    using generate_child_moves_run[OF d] gen_crowded_33
    by (simp add: legal_moves_length split: if_splits)
  then show ?thesis
    using generate_child_moves_legal[of start_position] d
    by (simp add: start_legal_moves) (simp add: start_position_def)
qed

text \<open>On the crowded position the function leaves the array.\<close>

theorem generate_child_moves_overflow:
  "player crowded_33 AND opponent crowded_33 = 0 \<and>
   generate_child_moves crowded_33 = Inl OutOfBounds"
  using gen_crowded_33 by (simp add: crowded_33_def)


section \<open>The capacity of the child array\<close>







section \<open>Disjoint bitboards\<close>

text \<open>The body of the loop that reads the board on the first call.\<close>

definition read_cell :: "board \<Rightarrow> int \<Rightarrow> nat \<Rightarrow> 64 word \<times> 64 word \<times> int \<Rightarrow> 64 word \<times> 64 word \<times> int" where
  "read_cell pyBoard pyPlayer =
    (\<lambda>index (pl, op, placed).
            case get_item pyBoard (index mod 8) (index div 8) of
              PyTuple \<Rightarrow> (pl, op, placed)
            | PyPlayer t \<Rightarrow>
                if t = pyPlayer then (pl, op OR push_bit index 1, placed + 1)
                else (pl OR push_bit index 1, op, placed + 1))"

lemma read_board_cells: "read_board pyBoard pyPlayer = fold (read_cell pyBoard pyPlayer) [0..<64]"
  by (simp add: read_board_def read_cell_def)

lemma read_cell_disjoint:
  assumes "pl AND op = 0" "\<And>j. bit pl j \<or> bit op j \<Longrightarrow> j < n"
    and r: "read_cell pyBoard pyPlayer n (pl, op, k) = (pl', op', k')"
  shows "pl' AND op' = 0 \<and> (\<forall>j. bit pl' j \<or> bit op' j \<longrightarrow> j < Suc n)"
proof -
  have nb: "\<not> bit pl n" "\<not> bit op n" using assms(2)[of n] by auto
  have disj: "\<not> (bit pl j \<and> bit op j)" for j
  proof -
    have "bit (pl AND op) j \<longleftrightarrow> bit (0 :: 64 word) j" by (simp only: assms(1))
    then show ?thesis by (simp add: bit_and_iff)
  qed
  have one: "bit (push_bit n (1 :: 64 word)) j \<Longrightarrow> j = n" for j
    by (auto simp: bit_exp_iff)
  have a: "(pl OR push_bit n 1) AND op = 0"
  proof (rule bit_eqI)
    fix j
    show "bit ((pl OR push_bit n 1) AND op) j \<longleftrightarrow> bit (0 :: 64 word) j"
      using disj[of j] nb one[of j] by (auto simp: bit_and_iff bit_or_iff)
  qed
  have b: "pl AND (op OR push_bit n 1) = 0"
  proof (rule bit_eqI)
    fix j
    show "bit (pl AND (op OR push_bit n 1)) j \<longleftrightarrow> bit (0 :: 64 word) j"
      using disj[of j] nb one[of j] by (auto simp: bit_and_iff bit_or_iff)
  qed
  have c: "bit (pl OR push_bit n 1) j \<Longrightarrow> j < Suc n" "bit (op OR push_bit n 1) j \<Longrightarrow> j < Suc n"
    "bit pl j \<Longrightarrow> j < Suc n" "bit op j \<Longrightarrow> j < Suc n" for j
    using assms(2)[of j] one[of j] by (auto simp: bit_or_iff)
  show ?thesis
  proof (cases "get_item pyBoard (n mod 8) (n div 8)")
    case PyTuple
    then have "pl' = pl" "op' = op" using r by (simp_all add: read_cell_def)
    then show ?thesis using assms(1) c(3,4) by blast
  next
    case (PyPlayer t)
    show ?thesis
    proof (cases "t = pyPlayer")
      case True
      then have "pl' = pl" "op' = op OR push_bit n 1"
        using r PyPlayer by (simp_all add: read_cell_def)
      then show ?thesis using b c(2,3) by blast
    next
      case False
      then have "pl' = pl OR push_bit n 1" "op' = op"
        using r PyPlayer by (simp_all add: read_cell_def)
      then show ?thesis using a c(1,4) by blast
    qed
  qed
qed

lemma read_board_disjoint:
  "fold (read_cell pyBoard pyPlayer) [0..<n] (0, 0, m) = (pl, op, k) \<Longrightarrow>
    pl AND op = 0 \<and> (\<forall>j. bit pl j \<or> bit op j \<longrightarrow> j < n)"
proof (induction n arbitrary: pl op k)
  case 0
  then show ?case by simp
next
  case (Suc n)
  obtain pl0 op0 k0 where f: "fold (read_cell pyBoard pyPlayer) [0..<n] (0, 0, m) = (pl0, op0, k0)"
    by (metis prod_cases3)
  have ih: "pl0 AND op0 = 0" "\<And>j. bit pl0 j \<or> bit op0 j \<Longrightarrow> j < n"
    using Suc.IH[OF f] by auto
  have r: "read_cell pyBoard pyPlayer n (pl0, op0, k0) = (pl, op, k)"
    using Suc.prems by (simp add: f)
  show ?case
    using read_cell_disjoint[where pl = pl0 and op = op0 and n = n and pl' = pl and op' = op,
        OF ih(1) _ r] ih(2)
    by blast
qed

lemma sync_head_first:
  assumes "player head OR opponent head = 0"
  shows "player (fst (sync_head pyBoard pyPlayer (head, g))) AND
         opponent (fst (sync_head pyBoard pyPlayer (head, g))) = 0"
proof -
  have z: "player head = 0" "opponent head = 0"
    using assms by (simp_all add: or_eq_0_iff)
  obtain pl op k where f: "fold (read_cell pyBoard pyPlayer) [0..<64] (0, 0, 0) = (pl, op, k)"
    by (metis prod_cases3)
  have "pl AND op = 0" using read_board_disjoint[OF f] by simp
  moreover have "fst (sync_head pyBoard pyPlayer (head, g)) =
      BoardState (nextStates head) pl op 0 (worstBranch head) (state_x head) (state_y head)"
    by (simp add: sync_head_def read_board_cells z f)
  ultimately show ?thesis by simp
qed

text \<open>
  C2. The root that the first call reads from the caller's board has disjoint bitboards,
  and every child that \<open>generate_child_moves\<close> returns for a parent with disjoint bitboards
  has disjoint bitboards.
\<close>

theorem disjointness:
  "(player head OR opponent head = 0 \<longrightarrow>
      player (fst (sync_head pyBoard pyPlayer (head, g))) AND
      opponent (fst (sync_head pyBoard pyPlayer (head, g))) = 0) \<and>
   (player s AND opponent s = 0 \<longrightarrow>
      (\<forall>s'. generate_child_moves s = Inr s' \<longrightarrow>
         (\<forall>c \<in> set (children s'). player c AND opponent c = 0)))"
proof (intro conjI impI allI ballI)
  assume "player head OR opponent head = 0"
  then show "player (fst (sync_head pyBoard pyPlayer (head, g))) AND
      opponent (fst (sync_head pyBoard pyPlayer (head, g))) = 0"
    by (rule sync_head_first)
next
  fix s' c
  assume d: "player s AND opponent s = 0" and g: "generate_child_moves s = Inr s'"
    and c: "c \<in> set (children s')"
  have "s' = BoardState (Some (gen_upto (opponent s) (player s) 64)) (player s) (opponent s)
      (val s) (worstBranch s) (state_x s) (state_y s)"
    using generate_child_moves_run[OF d] g by (simp split: if_splits)
  then have "c \<in> set (gen_upto (opponent s) (player s) 64)"
    using c by (simp add: children_def)
  then show "player c AND opponent c = 0" by (rule generated_children(5)[OF d])
qed

lemma sync_corner:
  "sync_head corner_board 1 (initial_head, \<lparr>placedTiles = 0, maxDepth = 0, visited = 0\<rparr>) =
    (BoardState None 2 1 0 0 0 0, \<lparr>placedTiles = 2, maxDepth = 0, visited = 0\<rparr>)"
  by (simp add: sync_head_def read_board_def initial_head_def board_eval)

theorem disjointness_witness:
  "player initial_head OR opponent initial_head = 0 \<and>
   fst (sync_head corner_board 1 (initial_head, \<lparr>placedTiles = 0, maxDepth = 0, visited = 0\<rparr>))
     = BoardState None 2 1 0 0 0 0 \<and>
   player (BoardState None 2 1 0 0 0 0) AND opponent (BoardState None 2 1 0 0 0 0) = 0 \<and>
   generate_child_moves (BoardState None 2 1 0 0 0 0) =
     Inr (BoardState (Some [BoardState None 7 0 3 0 2 0]) 2 1 0 0 0 0) \<and>
   player (BoardState None 7 0 3 0 2 0) AND opponent (BoardState None 7 0 3 0 2 0) = 0"
proof -
  have z: "player initial_head OR opponent initial_head = 0" by (simp add: initial_head_def)
  show ?thesis
    using disjointness[of initial_head corner_board 1
        "\<lparr>placedTiles = 0, maxDepth = 0, visited = 0\<rparr>" "BoardState None 2 1 0 0 0 0"] z
    by (simp add: sync_corner gen_corner)
qed

end
